theory Spec2Isabelle
  imports Complex_Main "HOL-Library.AList" "HOL-Library.Product_Lexorder"
begin

section \<open>Distance engine: \<open>levenshtein_optimized\<close>\<close>

text \<open>
  Python integers are modelled as \<open>int\<close>, the optional argument \<open>max_distance\<close>
  as \<open>int option\<close> (\<open>None\<close> is Python's \<open>None\<close>). The source tests the argument by
  truthiness (\<open>max_distance or float('inf')\<close>, \<open>if max_distance and ...\<close>), so both
  \<open>None\<close> and \<open>0\<close> count as "no budget"; this is written \<open>d \<noteq> 0\<close> below.

  Body of the inner loop, for one column \<open>j\<close> of row \<open>i\<close>:
\<close>

definition lev_cell :: "string \<Rightarrow> string \<Rightarrow> nat \<Rightarrow> int list \<Rightarrow> nat \<Rightarrow> int list \<Rightarrow> int list" where
  "lev_cell s1 s2 i previous_row j current_row =
     (let add = previous_row ! j + 1;
          delete = current_row ! (j - 1) + 1;
          change = previous_row ! (j - 1);
          change = (if s1 ! (j - 1) \<noteq> s2 ! (i - 1) then change + 1 else change)
      in current_row[j := min (min add delete) change])"

text \<open>One pass of the outer loop body up to the early-termination test:
  \<open>current_row = [i] + [0] * n\<close>, then \<open>for j in range(1, n + 1)\<close>.\<close>

definition lev_row :: "string \<Rightarrow> string \<Rightarrow> nat \<Rightarrow> nat \<Rightarrow> int list \<Rightarrow> int list" where
  "lev_row s1 s2 n i previous_row =
     fold (lev_cell s1 s2 i previous_row) [1..<n + 1] (int i # replicate n 0)"

text \<open>The outer loop \<open>for i in range(1, m + 1)\<close> with its early return, followed by
  \<open>return current_row[n]\<close>.\<close>

fun lev_rows :: "string \<Rightarrow> string \<Rightarrow> nat \<Rightarrow> int option \<Rightarrow> nat list \<Rightarrow> int list \<Rightarrow> int" where
  "lev_rows s1 s2 n max_distance [] current_row = current_row ! n"
| "lev_rows s1 s2 n max_distance (i # rest) previous_row =
     (let current_row = lev_row s1 s2 n i previous_row in
      case max_distance of
        None \<Rightarrow> lev_rows s1 s2 n max_distance rest current_row
      | Some d \<Rightarrow>
          if d \<noteq> 0 \<and> min_list current_row > d then d + 1
          else lev_rows s1 s2 n max_distance rest current_row)"

definition levenshtein_optimized :: "string \<Rightarrow> string \<Rightarrow> int option \<Rightarrow> int" where
  "levenshtein_optimized s1 s2 max_distance =
     (let diff = \<bar>int (length s1) - int (length s2)\<bar> in
      if (case max_distance of None \<Rightarrow> False | Some d \<Rightarrow> d \<noteq> 0 \<and> diff > d)
      then (case max_distance of None \<Rightarrow> diff | Some d \<Rightarrow> if d \<noteq> 0 then d + 1 else diff)
      else
        let (s1, s2) = (if length s1 > length s2 then (s2, s1) else (s1, s2));
            n = length s1; m = length s2
        in lev_rows s1 s2 n max_distance [1..<m + 1] (map int [0..<n + 1]))"

subsection \<open>The reference edit distance\<close>

text \<open>
  The reference follows the glossary of the specification: the edit distance is the least
  number of single-character insertions, deletions and substitutions that transform one
  string into the other. \<open>edit1\<close> is one such operation, at any position.
\<close>

inductive edit1 :: "'a list \<Rightarrow> 'a list \<Rightarrow> bool" where
  ins: "edit1 (xs @ ys) (xs @ c # ys)"
| del: "edit1 (xs @ c # ys) (xs @ ys)"
| sub: "edit1 (xs @ c # ys) (xs @ d # ys)"

definition edit_distance :: "'a list \<Rightarrow> 'a list \<Rightarrow> nat" where
  "edit_distance a b = (LEAST k. (edit1 ^^ k) a b)"

text \<open>The textbook recursion, which computes the reference (see \<open>edit_distance_rec\<close>).\<close>

fun lev_rec :: "'a list \<Rightarrow> 'a list \<Rightarrow> nat" where
  "lev_rec [] ys = length ys"
| "lev_rec xs [] = length xs"
| "lev_rec (x # xs) (y # ys) =
     min (min (lev_rec xs (y # ys) + 1) (lev_rec (x # xs) ys + 1))
         (lev_rec xs ys + (if x = y then 0 else 1))"


text \<open>Row \<open>i\<close> of the full distance matrix between the prefixes of \<open>s1\<close> and the
  prefix of length \<open>i\<close> of \<open>s2\<close>; the loop invariant of \<open>lev_rows\<close>.\<close>

definition dp_row :: "string \<Rightarrow> string \<Rightarrow> nat \<Rightarrow> int list" where
  "dp_row s1 s2 i = map (\<lambda>j. int (lev_rec (take j s1) (take i s2))) [0..<length s1 + 1]"

section \<open>Encoder\<close>

definition braille_map :: "(char \<times> string) list" where
  "braille_map =
    [(CHR ''a'', ''100000''), (CHR ''b'', ''110000''), (CHR ''c'', ''100100''),
     (CHR ''d'', ''100110''), (CHR ''e'', ''100010''), (CHR ''f'', ''110100''),
     (CHR ''g'', ''110110''), (CHR ''h'', ''110010''), (CHR ''i'', ''010100''),
     (CHR ''j'', ''010110''), (CHR ''k'', ''101000''), (CHR ''l'', ''111000''),
     (CHR ''m'', ''101100''), (CHR ''n'', ''101110''), (CHR ''o'', ''101010''),
     (CHR ''p'', ''111100''), (CHR ''q'', ''111110''), (CHR ''r'', ''111010''),
     (CHR ''s'', ''011100''), (CHR ''t'', ''011110''), (CHR ''u'', ''101001''),
     (CHR ''v'', ''111001''), (CHR ''w'', ''010111''), (CHR ''x'', ''101101''),
     (CHR ''y'', ''101111''), (CHR ''z'', ''101011'')]"

text \<open>
  A character is a code point below 256 (ASCII and Latin-1), and the length of a string
  counts code points. On these \<open>str.lower\<close> adds 32 to the capitals \<open>A\<close>..\<open>Z\<close>
  (65..90) and to the accented capitals 192..214 and 216..222, and leaves every other
  character alone. Code points from 256 on are outside the model.
\<close>

definition lower_char :: "char \<Rightarrow> char" where
  "lower_char c =
     (let k = (of_char c :: nat)
      in if (65 \<le> k \<and> k \<le> 90) \<or> (192 \<le> k \<and> k \<le> 214) \<or> (216 \<le> k \<and> k \<le> 222)
         then char_of (k + 32) else c)"

definition str_lower :: "string \<Rightarrow> string" where
  "str_lower s = map lower_char s"

definition word_to_braille :: "string \<Rightarrow> string" where
  "word_to_braille word =
     concat (map (\<lambda>c. case map_of braille_map (lower_char c) of
                         Some pattern \<Rightarrow> pattern
                       | None \<Rightarrow> ''000000'') word)"

section \<open>Engine state and pattern index\<close>

text \<open>
  A Python \<open>dict\<close> is an association list with distinct keys in insertion order:
  \<open>k in d\<close> is \<open>map_of d k \<noteq> None\<close>, \<open>d[k] = v\<close> is \<open>AList.update k v d\<close> (which
  overwrites in place or appends a new key), \<open>d.values()\<close> is \<open>map snd d\<close> and
  \<open>d.items()\<close> is \<open>d\<close> itself.
\<close>

datatype py_error = KeyError | ZeroDivisionError

type_synonym suggestion = "string \<times> int \<times> rat"

record engine =
  dictionary :: "string list"
  user_corrections :: "(string \<times> string) list"
  braille_words :: "(string \<times> string) list"
  words_by_length :: "(int \<times> string list) list"

text \<open>Subscripting a \<open>defaultdict(list)\<close>: an absent key is created with an empty
  list, so the read returns the dictionary as well.\<close>

definition dd_getitem :: "('k \<times> 'v list) list \<Rightarrow> 'k \<Rightarrow> 'v list \<times> ('k \<times> 'v list) list" where
  "dd_getitem d k =
     (case map_of d k of
        Some v \<Rightarrow> (v, d)
      | None \<Rightarrow> ([], AList.update k [] d))"

definition preprocess_word ::
  "string \<Rightarrow> (string \<times> string) list \<times> (int \<times> string list) list \<Rightarrow>
   (string \<times> string) list \<times> (int \<times> string list) list" where
  "preprocess_word word st =
     (let braille_pattern = word_to_braille word;
          bw = AList.update word braille_pattern (fst st);
          (bucket, wbl) = dd_getitem (snd st) (int (length braille_pattern))
      in (bw, AList.update (int (length braille_pattern)) (bucket @ [word]) wbl))"

definition preprocess_dictionary :: "engine \<Rightarrow> engine" where
  "preprocess_dictionary e =
     (let st = fold preprocess_word (dictionary e) (braille_words e, words_by_length e)
      in e\<lparr>braille_words := fst st, words_by_length := snd st\<rparr>)"

text \<open>The constructor; the two files it reads are its parameters: the word list that
  \<open>load_dictionary\<close> returns and the mapping that \<open>load_memory\<close> returns.\<close>

definition init :: "string list \<Rightarrow> (string \<times> string) list \<Rightarrow> engine" where
  "init dict memory =
     preprocess_dictionary
       \<lparr>dictionary = dict, user_corrections = memory, braille_words = [], words_by_length = []\<rparr>"

definition default_dictionary :: "string list" where
  "default_dictionary =
     [''cat'', ''cap'', ''bat'', ''rat'', ''car'', ''dog'', ''can'', ''help'', ''hello'']"

section \<open>Candidate search: \<open>suggest_words\<close>\<close>

text \<open>
  Confidence values are Python floats; they are modelled as exact rationals, and
  \<open>py_round3\<close> is \<open>round(x, 3)\<close> on them: the nearest multiple of \<open>1/1000\<close>, ties
  to even. The source computes in binary floating point, where a value that is an exact
  half in the rationals may lie just beside the half, so at such a tie the source may
  choose the other neighbour. The theorems below use only what holds of both: bounds
  that rounding preserves, the values \<open>1\<close> and \<open>1.1\<close>, and that the result is a multiple
  of \<open>1/1000\<close> next to the value rounded.
\<close>

definition py_round3 :: "rat \<Rightarrow> rat" where
  "py_round3 x =
     (let y = x * 1000; f = \<lfloor>y\<rfloor>; r = y - of_int f
      in of_int (if r < 1 / 2 then f else if r > 1 / 2 then f + 1
                 else if even f then f else f + 1) / 1000)"

text \<open>The slice \<open>xs[:k]\<close>; a negative \<open>k\<close> counts from the end.\<close>

definition py_slice_to :: "int \<Rightarrow> 'a list \<Rightarrow> 'a list" where
  "py_slice_to k xs = (if k \<ge> 0 then take (nat k) xs else take (nat (int (length xs) + k)) xs)"

definition search_lengths :: "int \<Rightarrow> int \<Rightarrow> int list" where
  "search_lengths input_len max_distance =
     input_len #
     concat (map (\<lambda>i. (if input_len - i > 0 then [input_len - i] else []) @ [input_len + i])
                 [1..max_distance])"

text \<open>The confidence of a kept candidate before rounding (source lines 122-126).\<close>

definition confidence_score :: "engine \<Rightarrow> string \<Rightarrow> string \<Rightarrow> string \<Rightarrow> int \<Rightarrow> rat" where
  "confidence_score e input_braille word_braille word distance =
     (let confidence =
            1 - of_int distance / of_int (int (length input_braille) + int (length word_braille))
      in if word \<in> set (map snd (user_corrections e)) then confidence + 1 / 10 else confidence)"

text \<open>Body of the loop over the words of one bucket (source lines 117-128). The
  subscript \<open>self.braille_words[word]\<close> raises on an absent key and the division raises
  on a zero divisor.\<close>

definition score_word ::
  "engine \<Rightarrow> string \<Rightarrow> int \<Rightarrow> string \<Rightarrow> suggestion list \<Rightarrow> py_error + suggestion list" where
  "score_word e input_braille max_distance word suggestions =
     (case map_of (braille_words e) word of
        None \<Rightarrow> Inl KeyError
      | Some word_braille \<Rightarrow>
          (let distance = levenshtein_optimized input_braille word_braille (Some max_distance) in
           if distance \<le> max_distance then
             (if int (length input_braille) + int (length word_braille) = 0
              then Inl ZeroDivisionError
              else Inr (suggestions @
                        [(word, distance,
                          py_round3 (confidence_score e input_braille word_braille word distance))]))
           else Inr suggestions))"

fun score_words ::
  "engine \<Rightarrow> string \<Rightarrow> int \<Rightarrow> string list \<Rightarrow> suggestion list \<Rightarrow> py_error + suggestion list" where
  "score_words e input_braille max_distance [] suggestions = Inr suggestions"
| "score_words e input_braille max_distance (word # rest) suggestions =
     (case score_word e input_braille max_distance word suggestions of
        Inl err \<Rightarrow> Inl err
      | Inr suggestions' \<Rightarrow> score_words e input_braille max_distance rest suggestions')"

text \<open>The loop over \<open>search_lengths\<close> (source lines 114-128). The engine is threaded
  through it because the bucket is read by subscripting the \<open>defaultdict\<close>.\<close>

fun search_buckets ::
  "engine \<Rightarrow> string \<Rightarrow> int \<Rightarrow> int list \<Rightarrow> suggestion list \<Rightarrow>
   (py_error + suggestion list) \<times> engine" where
  "search_buckets e input_braille max_distance [] suggestions = (Inr suggestions, e)"
| "search_buckets e input_braille max_distance (len # rest) suggestions =
     (if map_of (words_by_length e) len \<noteq> None then
        (let (bucket, wbl) = dd_getitem (words_by_length e) len;
             e' = e\<lparr>words_by_length := wbl\<rparr>
         in case score_words e' input_braille max_distance bucket suggestions of
              Inl err \<Rightarrow> (Inl err, e')
            | Inr suggestions' \<Rightarrow> search_buckets e' input_braille max_distance rest suggestions')
      else search_buckets e input_braille max_distance rest suggestions)"

definition adaptive_max_distance :: "string \<Rightarrow> int option \<Rightarrow> int" where
  "adaptive_max_distance input_word max_distance =
     (case max_distance of
        Some d \<Rightarrow> d
      | None \<Rightarrow> if length input_word \<le> 3 then 6 else if length input_word \<le> 5 then 5 else 4)"

definition fallback :: "engine \<Rightarrow> string \<Rightarrow> suggestion list" where
  "fallback e input_braille =
     (let fb = map (\<lambda>(word, braille). (word, levenshtein_optimized input_braille braille None, 0))
                   (braille_words e)
      in py_slice_to 1 (sort_key (\<lambda>x. fst (snd x)) fb))"

text \<open>Source lines 95-128: encoding the input, choosing the budget and scanning the
  buckets. The result is the list of kept candidates before sorting.\<close>

definition bucket_search ::
  "engine \<Rightarrow> string \<Rightarrow> int option \<Rightarrow> (py_error + suggestion list) \<times> engine" where
  "bucket_search e input_word max_distance =
     (let input_braille = word_to_braille input_word;
          input_len = int (length input_braille);
          max_distance = adaptive_max_distance input_word max_distance
      in search_buckets e input_braille max_distance (search_lengths input_len max_distance) [])"

text \<open>Source lines 95-140: what \<open>suggest_words\<close> does with the lowercased input once
  the learned corrections gave nothing.\<close>

definition suggest_search ::
  "engine \<Rightarrow> string \<Rightarrow> int \<Rightarrow> int option \<Rightarrow> (py_error + suggestion list) \<times> engine" where
  "suggest_search e input_word max_suggestions max_distance =
     (let (res, e') = bucket_search e input_word max_distance
      in case res of
           Inl err \<Rightarrow> (Inl err, e')
         | Inr suggestions \<Rightarrow>
             (let suggestions = sort_key (\<lambda>x. (fst (snd x), - snd (snd x))) suggestions in
              if suggestions = [] then (Inr (fallback e' (word_to_braille input_word)), e')
              else (Inr (py_slice_to max_suggestions suggestions), e')))"

text \<open>Source lines 90-93: the learned word for the (lowercased) input, when there is
  one and it is in the dictionary.\<close>

definition learned_correction :: "engine \<Rightarrow> string \<Rightarrow> string option" where
  "learned_correction e input_word =
     (case map_of (user_corrections e) input_word of
        Some learned_word \<Rightarrow>
          if learned_word \<in> set (dictionary e) then Some learned_word else None
      | None \<Rightarrow> None)"

definition suggest_words ::
  "engine \<Rightarrow> string \<Rightarrow> int \<Rightarrow> int option \<Rightarrow> (py_error + suggestion list) \<times> engine" where
  "suggest_words e input_word max_suggestions max_distance =
     (let input_word = str_lower input_word in
      case learned_correction e input_word of
        Some learned_word \<Rightarrow> (Inr [(learned_word, 0, 1)], e)
      | None \<Rightarrow> suggest_search e input_word max_suggestions max_distance)"

section \<open>Learning store\<close>

text \<open>\<open>remember_choice\<close>; writing the mapping to the memory file is outside the model.\<close>

definition remember_choice :: "engine \<Rightarrow> string \<Rightarrow> string \<Rightarrow> engine" where
  "remember_choice e typed corrected =
     e\<lparr>user_corrections := AList.update (str_lower typed) (str_lower corrected) (user_corrections e)\<rparr>"

section \<open>Auxiliary notions for the proofs\<close>

text \<open>What one dictionary word and one bucket contribute to the list of kept candidates,
  and the property every kept candidate has.\<close>

definition candidate :: "engine \<Rightarrow> string \<Rightarrow> int \<Rightarrow> string \<Rightarrow> suggestion list" where
  "candidate e input_braille max_distance word =
     (case map_of (braille_words e) word of
        None \<Rightarrow> []
      | Some word_braille \<Rightarrow>
          (let distance = levenshtein_optimized input_braille word_braille (Some max_distance) in
           if distance \<le> max_distance
           then [(word, distance,
                  py_round3 (confidence_score e input_braille word_braille word distance))]
           else []))"

definition bucket_candidates :: "engine \<Rightarrow> string \<Rightarrow> int \<Rightarrow> int \<Rightarrow> suggestion list" where
  "bucket_candidates e input_braille max_distance len =
     (case map_of (words_by_length e) len of
        None \<Rightarrow> []
      | Some bucket \<Rightarrow> concat (map (candidate e input_braille max_distance) bucket))"

definition kept_ok :: "engine \<Rightarrow> string \<Rightarrow> int \<Rightarrow> suggestion \<Rightarrow> bool" where
  "kept_ok e input_braille max_distance x =
     (\<exists>code. map_of (braille_words e) (fst x) = Some code \<and>
        fst (snd x) = levenshtein_optimized input_braille code (Some max_distance) \<and>
        fst (snd x) \<le> max_distance \<and>
        0 < int (length input_braille) + int (length code) \<and>
        snd (snd x) =
          py_round3 (1 - of_int (fst (snd x)) / of_int (int (length input_braille) + int (length code)) +
                     (if fst x \<in> snd ` set (user_corrections e) then 1 / 10 else 0)))"

section \<open>Correctness of the distance engine\<close>

subsection \<open>The recursion computes the reference edit distance\<close>

lemma lev_rec_refl: "lev_rec a a = 0"
  by (induction a) auto

lemma lev_rec_sym: "lev_rec a b = lev_rec b a"
proof (induction a b rule: lev_rec.induct)
  case (1 ys)
  then show ?case by (cases ys) auto
next
  case (2 v va)
  then show ?case by simp
next
  case (3 x xs y ys)
  then show ?case by (simp add: min.commute min.left_commute eq_commute)
qed

lemma lev_rec_Nil2 [simp]: "lev_rec xs [] = length xs"
  by (cases xs) auto

lemma lev_rec_del_front: "lev_rec (x # xs) b \<le> Suc (lev_rec xs b)"
  by (cases b) auto

lemma lev_rec_ins_right: "lev_rec a (y # ys) \<le> Suc (lev_rec a ys)"
  by (cases a) auto

lemma lev_rec_ins_front: "lev_rec xs b \<le> Suc (lev_rec (x # xs) b)"
proof (induction b)
  case Nil
  then show ?case by (cases xs) auto
next
  case (Cons y ys)
  have r: "lev_rec xs (y # ys) \<le> Suc (lev_rec xs ys)" by (rule lev_rec_ins_right)
  from Cons r show ?case by (auto simp: min_def)
qed

lemma lev_rec_sub_front: "lev_rec (x # xs) b \<le> Suc (lev_rec (x' # xs) b)"
proof (induction b)
  case Nil
  then show ?case by simp
next
  case (Cons y ys)
  have r: "lev_rec (x # xs) (y # ys) \<le> Suc (lev_rec (x # xs) ys)" by (rule lev_rec_ins_right)
  from Cons r show ?case by (auto simp: min_def)
qed

lemma lev_rec_ctx:
  assumes "\<And>b. lev_rec a b \<le> Suc (lev_rec a' b)"
  shows "lev_rec (z # a) b \<le> Suc (lev_rec (z # a') b)"
proof (induction b)
  case Nil
  from assms [of "[]"] show ?case by (cases a; cases a') auto
next
  case (Cons y ys)
  have r: "lev_rec (z # a) (y # ys) \<le> Suc (lev_rec (z # a) ys)" by (rule lev_rec_ins_right)
  from Cons r assms [of "y # ys"] assms [of ys] show ?case by (auto simp: min_def)
qed

lemma lev_rec_ctx_app:
  assumes "\<And>b. lev_rec a b \<le> Suc (lev_rec a' b)"
  shows "lev_rec (xs @ a) b \<le> Suc (lev_rec (xs @ a') b)"
proof (induction xs arbitrary: b)
  case Nil
  then show ?case using assms by simp
next
  case (Cons z zs)
  show ?case using lev_rec_ctx [of "zs @ a" "zs @ a'" z b] Cons by simp
qed

lemma edit1_lev_rec: "edit1 a a' \<Longrightarrow> lev_rec a b \<le> Suc (lev_rec a' b)"
proof (induction rule: edit1.induct)
  case (ins xs ys c)
  show ?case by (rule lev_rec_ctx_app) (rule lev_rec_ins_front)
next
  case (del xs c ys)
  show ?case by (rule lev_rec_ctx_app) (rule lev_rec_del_front)
next
  case (sub xs c ys d)
  show ?case by (rule lev_rec_ctx_app) (rule lev_rec_sub_front)
qed

lemma relpow_lev_rec: "(edit1 ^^ k) a b \<Longrightarrow> lev_rec a b \<le> k"
proof (induction k arbitrary: a)
  case 0
  then show ?case by (simp add: lev_rec_refl)
next
  case (Suc k)
  from relpowp_Suc_D2 [OF Suc.prems] obtain a' where "edit1 a a'" "(edit1 ^^ k) a' b"
    by blast
  with Suc.IH [of a'] edit1_lev_rec [of a a' b] show ?case by simp
qed

lemma edit1_Cons: "edit1 a b \<Longrightarrow> edit1 (x # a) (x # b)"
proof (induction rule: edit1.induct)
  case (ins xs ys c)
  show ?case using edit1.ins [of "x # xs" ys c] by simp
next
  case (del xs c ys)
  show ?case using edit1.del [of "x # xs" c ys] by simp
next
  case (sub xs c ys d)
  show ?case using edit1.sub [of "x # xs" c ys d] by simp
qed

lemma edits_Cons: "(edit1 ^^ k) a b \<Longrightarrow> (edit1 ^^ k) (x # a) (x # b)"
proof (induction k arbitrary: b)
  case 0
  then show ?case by simp
next
  case (Suc k)
  then show ?case by (auto intro: edit1_Cons)
qed

lemma edits_insert_all: "(edit1 ^^ length ys) [] ys"
proof (induction ys rule: rev_induct)
  case Nil
  then show ?case by simp
next
  case (snoc y ys)
  have "edit1 (ys @ []) (ys @ y # [])" by (rule edit1.ins)
  with snoc show ?case by auto
qed

lemma edits_delete_all: "(edit1 ^^ length xs) xs []"
proof (induction xs)
  case Nil
  then show ?case by simp
next
  case (Cons x xs)
  have "edit1 ([] @ x # xs) ([] @ xs)" by (rule edit1.del)
  then have "edit1 (x # xs) xs" by simp
  then have "(edit1 ^^ Suc (length xs)) (x # xs) []" using Cons by (rule relpowp_Suc_I2)
  then show ?case by simp
qed

lemma lev_rec_edits: "(edit1 ^^ lev_rec a b) a b"
proof (induction a b rule: lev_rec.induct)
  case (1 ys)
  then show ?case using edits_insert_all [of ys] by simp
next
  case (2 v va)
  then show ?case using edits_delete_all [of "v # va"] by simp
next
  case (3 x xs y ys)
  have d: "edit1 (x # xs) xs" using edit1.del [of "[]" x xs] by simp
  have i: "edit1 (x # xs) (y # x # xs)" using edit1.ins [of "[]" "x # xs" y] by simp
  have s: "edit1 (x # xs) (y # xs)" using edit1.sub [of "[]" x xs y] by simp
  have "(edit1 ^^ Suc (lev_rec xs (y # ys))) (x # xs) (y # ys)"
    using d "3.IH"(1) by (rule relpowp_Suc_I2)
  then have A: "(edit1 ^^ (lev_rec xs (y # ys) + 1)) (x # xs) (y # ys)"
    by (simp only: Suc_eq_plus1)
  have "(edit1 ^^ Suc (lev_rec (x # xs) ys)) (x # xs) (y # ys)"
    using i edits_Cons [OF "3.IH"(2), of y] by (rule relpowp_Suc_I2)
  then have B: "(edit1 ^^ (lev_rec (x # xs) ys + 1)) (x # xs) (y # ys)"
    by (simp only: Suc_eq_plus1)
  have C: "(edit1 ^^ (lev_rec xs ys + (if x = y then 0 else 1))) (x # xs) (y # ys)"
  proof (cases "x = y")
    case True
    then show ?thesis using edits_Cons [OF "3.IH"(3), of y] by simp
  next
    case False
    have "(edit1 ^^ Suc (lev_rec xs ys)) (x # xs) (y # ys)"
      using s edits_Cons [OF "3.IH"(3), of y] by (rule relpowp_Suc_I2)
    with False show ?thesis by (simp only: Suc_eq_plus1 if_False)
  qed
  have E: "lev_rec (x # xs) (y # ys) = lev_rec xs (y # ys) + 1 \<or>
           lev_rec (x # xs) (y # ys) = lev_rec (x # xs) ys + 1 \<or>
           lev_rec (x # xs) (y # ys) = lev_rec xs ys + (if x = y then 0 else 1)"
    by (simp add: min_def)
  from E A B C show ?case by metis
qed

lemma edit_distance_rec: "edit_distance a b = lev_rec a b"
  unfolding edit_distance_def
  by (rule Least_equality) (auto intro: lev_rec_edits relpow_lev_rec)

lemma edit1_rev: "edit1 a b \<Longrightarrow> edit1 (rev a) (rev b)"
proof (induction rule: edit1.induct)
  case (ins xs ys c)
  show ?case using edit1.ins [of "rev ys" "rev xs" c] by simp
next
  case (del xs c ys)
  show ?case using edit1.del [of "rev ys" c "rev xs"] by simp
next
  case (sub xs c ys d)
  show ?case using edit1.sub [of "rev ys" c "rev xs" d] by simp
qed

lemma edits_rev: "(edit1 ^^ k) a b \<Longrightarrow> (edit1 ^^ k) (rev a) (rev b)"
proof (induction k arbitrary: b)
  case 0
  then show ?case by simp
next
  case (Suc k)
  then show ?case by (auto intro: edit1_rev)
qed

lemma lev_rec_rev_le: "lev_rec (rev a) (rev b) \<le> lev_rec a b"
  by (rule relpow_lev_rec) (rule edits_rev, rule lev_rec_edits)

lemma lev_rec_rev: "lev_rec (rev a) (rev b) = lev_rec a b"
  using lev_rec_rev_le [of a b] lev_rec_rev_le [of "rev a" "rev b"] by simp

lemma lev_rec_snoc:
  "lev_rec (xs @ [x]) (ys @ [y]) =
     min (min (lev_rec (xs @ [x]) ys + 1) (lev_rec xs (ys @ [y]) + 1))
         (lev_rec xs ys + (if x \<noteq> y then 1 else 0))"
proof -
  have "lev_rec (xs @ [x]) (ys @ [y]) = lev_rec (x # rev xs) (y # rev ys)"
    using lev_rec_rev [of "xs @ [x]" "ys @ [y]"] by simp
  also have "\<dots> = min (min (lev_rec (rev xs) (y # rev ys) + 1) (lev_rec (x # rev xs) (rev ys) + 1))
         (lev_rec (rev xs) (rev ys) + (if x = y then 0 else 1))" by simp
  also have "lev_rec (rev xs) (y # rev ys) = lev_rec xs (ys @ [y])"
    using lev_rec_rev [of xs "ys @ [y]"] by simp
  also have "lev_rec (x # rev xs) (rev ys) = lev_rec (xs @ [x]) ys"
    using lev_rec_rev [of "xs @ [x]" ys] by simp
  also have "lev_rec (rev xs) (rev ys) = lev_rec xs ys" by (rule lev_rec_rev)
  finally show ?thesis by (simp add: min.commute min.left_commute)
qed

lemma lev_rec_length_diff_le: "length b - length a \<le> lev_rec a b \<and> length a - length b \<le> lev_rec a b"
  by (induction a b rule: lev_rec.induct) (auto simp: min_def)

lemma lev_rec_le_max: "lev_rec a b \<le> max (length a) (length b)"
  by (induction a b rule: lev_rec.induct) (auto simp: min_def max_def)

lemma lev_rec_0_iff: "lev_rec a b = 0 \<longleftrightarrow> a = b"
  by (induction a b rule: lev_rec.induct) (auto simp: min_def)

subsection \<open>The rows of the dynamic programme\<close>

lemma length_dp_row [simp]: "length (dp_row s1 s2 i) = length s1 + 1"
  by (simp add: dp_row_def)

lemma dp_row_nth: "j \<le> length s1 \<Longrightarrow> dp_row s1 s2 i ! j = int (lev_rec (take j s1) (take i s2))"
  unfolding dp_row_def by (simp add: nth_map_upt del: upt_Suc)

lemma lev_rec_take_step:
  assumes "j < length s1" "i < length s2"
  shows "int (lev_rec (take (Suc j) s1) (take (Suc i) s2)) =
     min (min (int (lev_rec (take (Suc j) s1) (take i s2)) + 1)
              (int (lev_rec (take j s1) (take (Suc i) s2)) + 1))
         (int (lev_rec (take j s1) (take i s2)) + (if s1 ! j \<noteq> s2 ! i then 1 else 0))"
proof -
  have a: "take (Suc j) s1 = take j s1 @ [s1 ! j]" using assms by (simp add: take_Suc_conv_app_nth)
  have b: "take (Suc i) s2 = take i s2 @ [s2 ! i]" using assms by (simp add: take_Suc_conv_app_nth)
  have "lev_rec (take (Suc j) s1) (take (Suc i) s2) =
     min (min (lev_rec (take (Suc j) s1) (take i s2) + 1)
              (lev_rec (take j s1) (take (Suc i) s2) + 1))
         (lev_rec (take j s1) (take i s2) + (if s1 ! j \<noteq> s2 ! i then 1 else 0))"
    using lev_rec_snoc [of "take j s1" "s1 ! j" "take i s2" "s2 ! i"] a b by simp
  then show ?thesis by (simp add: min_def)
qed

lemma lev_row_fold:
  assumes i: "i < length s2" and k: "k \<le> length s1"
  shows "fold (lev_cell s1 s2 (Suc i) (dp_row s1 s2 i)) [1..<k + 1] (int (Suc i) # replicate (length s1) 0) =
         map (\<lambda>j. int (lev_rec (take j s1) (take (Suc i) s2))) [0..<k + 1] @ replicate (length s1 - k) 0"
  using k
proof (induction k)
  case 0
  then show ?case using i by simp
next
  case (Suc k)
  let ?D = "\<lambda>j. int (lev_rec (take j s1) (take (Suc i) s2))"
  let ?cur = "map ?D [0..<k + 1] @ replicate (length s1 - k) 0"
  have kl: "k < length s1" using Suc.prems by simp
  have IH: "fold (lev_cell s1 s2 (Suc i) (dp_row s1 s2 i)) [1..<k + 1] (int (Suc i) # replicate (length s1) 0) = ?cur"
    using Suc by simp
  have c1: "?cur ! k = ?D k"
    by (simp add: nth_append nth_map_upt del: upt_Suc)
  have cell: "lev_cell s1 s2 (Suc i) (dp_row s1 s2 i) (Suc k) ?cur = ?cur[Suc k := ?D (Suc k)]"
    unfolding lev_cell_def Let_def
    using kl c1 lev_rec_take_step [OF kl i] by (simp add: dp_row_nth del: upt_Suc)
  have rep: "replicate (length s1 - k) (0::int) = 0 # replicate (length s1 - Suc k) 0"
    using kl by (metis Suc_diff_Suc replicate_Suc)
  have upd: "?cur[Suc k := ?D (Suc k)] = map ?D [0..<Suc k + 1] @ replicate (length s1 - Suc k) 0"
    unfolding rep by (simp add: list_update_append)
  have "[1..<Suc k + 1] = [1..<k + 1] @ [Suc k]" by simp
  then show ?case using IH cell upd by (simp only: fold_append fold_simps comp_def id_def)
qed

lemma lev_row_correct:
  assumes "i < length s2"
  shows "lev_row s1 s2 (length s1) (Suc i) (dp_row s1 s2 i) = dp_row s1 s2 (Suc i)"
  unfolding lev_row_def using lev_row_fold [OF assms, of "length s1"] by (simp add: dp_row_def)

lemma lev_rec_suffix:
  "\<exists>j\<le>length a. lev_rec (drop j a) b2 \<le> lev_rec a (b1 @ b2)"
proof (induction a b1 rule: lev_rec.induct)
  case (1 ys)
  then show ?case by simp
next
  case (2 v va)
  have "lev_rec (drop 0 (v # va)) b2 \<le> lev_rec (v # va) ([] @ b2)" by simp
  then show ?case by blast
next
  case (3 x xs y ys)
  from "3.IH"(1) obtain j1 where j1: "j1 \<le> length xs" "lev_rec (drop j1 xs) b2 \<le> lev_rec xs ((y # ys) @ b2)"
    by blast
  from "3.IH"(2) obtain j2 where j2: "j2 \<le> length (x # xs)" "lev_rec (drop j2 (x # xs)) b2 \<le> lev_rec (x # xs) (ys @ b2)"
    by blast
  from "3.IH"(3) obtain j3 where j3: "j3 \<le> length xs" "lev_rec (drop j3 xs) b2 \<le> lev_rec xs (ys @ b2)"
    by blast
  have E: "lev_rec (x # xs) ((y # ys) @ b2) = lev_rec xs ((y # ys) @ b2) + 1 \<or>
           lev_rec (x # xs) ((y # ys) @ b2) = lev_rec (x # xs) (ys @ b2) + 1 \<or>
           lev_rec (x # xs) ((y # ys) @ b2) = lev_rec xs (ys @ b2) + (if x = y then 0 else 1)"
    by (simp add: min_def)
  then consider
      (a) "lev_rec (x # xs) ((y # ys) @ b2) = lev_rec xs ((y # ys) @ b2) + 1"
    | (b) "lev_rec (x # xs) ((y # ys) @ b2) = lev_rec (x # xs) (ys @ b2) + 1"
    | (c) "lev_rec (x # xs) ((y # ys) @ b2) = lev_rec xs (ys @ b2) + (if x = y then 0 else 1)"
    by blast
  then show ?case
  proof cases
    case a
    have "Suc j1 \<le> length (x # xs)" using j1 by simp
    moreover have "lev_rec (drop (Suc j1) (x # xs)) b2 \<le> lev_rec (x # xs) ((y # ys) @ b2)"
      using j1 a by simp
    ultimately show ?thesis by blast
  next
    case b
    have "lev_rec (drop j2 (x # xs)) b2 \<le> lev_rec (x # xs) ((y # ys) @ b2)"
      using j2 b by simp
    with j2(1) show ?thesis by blast
  next
    case c
    have "Suc j3 \<le> length (x # xs)" using j3 by simp
    moreover have "lev_rec (drop (Suc j3) (x # xs)) b2 \<le> lev_rec (x # xs) ((y # ys) @ b2)"
      using j3 c by simp
    ultimately show ?thesis by blast
  qed
qed

lemma lev_rec_prefix:
  "\<exists>j\<le>length a. lev_rec (take j a) b1 \<le> lev_rec a (b1 @ b2)"
proof -
  from lev_rec_suffix [of "rev a" "rev b1" "rev b2"]
  obtain j where j: "j \<le> length a" "lev_rec (drop j (rev a)) (rev b1) \<le> lev_rec (rev a) (rev b2 @ rev b1)"
    by auto
  have "lev_rec (rev a) (rev b2 @ rev b1) = lev_rec a (b1 @ b2)"
    using lev_rec_rev [of a "b1 @ b2"] by simp
  moreover have "lev_rec (drop j (rev a)) (rev b1) = lev_rec (take (length a - j) a) b1"
    using lev_rec_rev [of "take (length a - j) a" b1] j(1) by (simp add: rev_take)
  ultimately have "lev_rec (take (length a - j) a) b1 \<le> lev_rec a (b1 @ b2)" using j by simp
  moreover have "length a - j \<le> length a" by simp
  ultimately show ?thesis by blast
qed

lemma min_list_le: "x \<in> set xs \<Longrightarrow> min_list xs \<le> (x::int)"
  by (cases "xs = []") (auto simp: min_list_Min)

lemma dp_row_min_le:
  "min_list (dp_row s1 s2 i) \<le> int (lev_rec s1 s2)"
proof -
  from lev_rec_prefix [of s1 "take i s2" "drop i s2"]
  obtain j where j: "j \<le> length s1" "lev_rec (take j s1) (take i s2) \<le> lev_rec s1 s2"
    by auto
  have "dp_row s1 s2 i ! j \<in> set (dp_row s1 s2 i)"
    using j(1) by (intro nth_mem) simp
  then have "min_list (dp_row s1 s2 i) \<le> dp_row s1 s2 i ! j" by (rule min_list_le)
  with j show ?thesis by (simp add: dp_row_nth)
qed

lemma dp_row_last: "length s2 \<le> i \<Longrightarrow> dp_row s1 s2 i ! length s1 = int (lev_rec s1 s2)"
  by (simp add: dp_row_nth)

lemma upt_Suc_Cons: "i < m \<Longrightarrow> [Suc i..<m + 1] = Suc i # [Suc (Suc i)..<m + 1]"
  by (simp add: upt_rec)

lemma lev_rows_None:
  "i \<le> length s2 \<Longrightarrow>
   lev_rows s1 s2 (length s1) None [Suc i..<length s2 + 1] (dp_row s1 s2 i) = int (lev_rec s1 s2)"
proof (induction "length s2 - i" arbitrary: i)
  case 0
  then have "i = length s2" by simp
  then show ?case by (simp add: dp_row_last)
next
  case (Suc k)
  then have lt: "i < length s2" by simp
  have "lev_rows s1 s2 (length s1) None [Suc (Suc i)..<length s2 + 1] (dp_row s1 s2 (Suc i)) = int (lev_rec s1 s2)"
    using Suc(1) [of "Suc i"] Suc(2) lt by simp
  then show ?case
    by (simp only: upt_Suc_Cons [OF lt] lev_rows.simps Let_def lev_row_correct [OF lt] option.case)
qed

lemma lev_rows_Some_exact:
  assumes "int (lev_rec s1 s2) \<le> d \<or> d = 0"
  shows "i \<le> length s2 \<Longrightarrow>
   lev_rows s1 s2 (length s1) (Some d) [Suc i..<length s2 + 1] (dp_row s1 s2 i) = int (lev_rec s1 s2)"
proof (induction "length s2 - i" arbitrary: i)
  case 0
  then have "i = length s2" by simp
  then show ?case by (simp add: dp_row_last)
next
  case (Suc k)
  then have lt: "i < length s2" by simp
  have IH: "lev_rows s1 s2 (length s1) (Some d) [Suc (Suc i)..<length s2 + 1] (dp_row s1 s2 (Suc i)) = int (lev_rec s1 s2)"
    using Suc(1) [of "Suc i"] Suc(2) lt by simp
  have "\<not> (d \<noteq> 0 \<and> min_list (dp_row s1 s2 (Suc i)) > d)"
    using assms dp_row_min_le [of s1 s2 "Suc i"] by auto
  with IH show ?case
    by (simp only: upt_Suc_Cons [OF lt] lev_rows.simps Let_def lev_row_correct [OF lt] option.case if_False)
qed

lemma lev_rows_Some_cases:
  "i \<le> length s2 \<Longrightarrow>
   lev_rows s1 s2 (length s1) (Some d) [Suc i..<length s2 + 1] (dp_row s1 s2 i) = int (lev_rec s1 s2) \<or>
   (d \<noteq> 0 \<and> d < int (lev_rec s1 s2) \<and>
    lev_rows s1 s2 (length s1) (Some d) [Suc i..<length s2 + 1] (dp_row s1 s2 i) = d + 1)"
proof (induction "length s2 - i" arbitrary: i)
  case 0
  then have "i = length s2" by simp
  then show ?case by (simp add: dp_row_last)
next
  case (Suc k)
  then have lt: "i < length s2" by simp
  have IH: "lev_rows s1 s2 (length s1) (Some d) [Suc (Suc i)..<length s2 + 1] (dp_row s1 s2 (Suc i)) = int (lev_rec s1 s2) \<or>
   (d \<noteq> 0 \<and> d < int (lev_rec s1 s2) \<and>
    lev_rows s1 s2 (length s1) (Some d) [Suc (Suc i)..<length s2 + 1] (dp_row s1 s2 (Suc i)) = d + 1)"
    using Suc(1) [of "Suc i"] Suc(2) lt by simp
  show ?case
  proof (cases "d \<noteq> 0 \<and> min_list (dp_row s1 s2 (Suc i)) > d")
    case True
    then have "d < int (lev_rec s1 s2)" using dp_row_min_le [of s1 s2 "Suc i"] by simp
    with True show ?thesis
      by (simp only: upt_Suc_Cons [OF lt] lev_rows.simps Let_def lev_row_correct [OF lt] option.case if_True simp_thms)
  next
    case False
    with IH show ?thesis
      by (simp only: upt_Suc_Cons [OF lt] lev_rows.simps Let_def lev_row_correct [OF lt] option.case if_False)
  qed
qed

lemma dp_row_0: "map int [0..<length s1 + 1] = dp_row s1 s2 0"
  by (simp add: dp_row_def del: upt_Suc)

subsection \<open>What \<open>levenshtein_optimized\<close> returns\<close>

lemma lev_dp_None:
  "lev_rows s1 s2 (length s1) None [1..<length s2 + 1] (map int [0..<length s1 + 1]) = int (lev_rec s1 s2)"
  using lev_rows_None [of 0 s2 s1] by (simp add: dp_row_0 [of s1 s2, symmetric] del: upt_Suc)

lemma lev_dp_Some_exact:
  "int (lev_rec s1 s2) \<le> d \<or> d = 0 \<Longrightarrow>
   lev_rows s1 s2 (length s1) (Some d) [1..<length s2 + 1] (map int [0..<length s1 + 1]) = int (lev_rec s1 s2)"
  using lev_rows_Some_exact [of s1 s2 d 0] by (simp add: dp_row_0 [of s1 s2, symmetric] del: upt_Suc)

lemma lev_dp_Some_cases:
  "lev_rows s1 s2 (length s1) (Some d) [1..<length s2 + 1] (map int [0..<length s1 + 1]) = int (lev_rec s1 s2) \<or>
   (d \<noteq> 0 \<and> d < int (lev_rec s1 s2) \<and>
    lev_rows s1 s2 (length s1) (Some d) [1..<length s2 + 1] (map int [0..<length s1 + 1]) = d + 1)"
  using lev_rows_Some_cases [of 0 s2 s1 d] by (simp add: dp_row_0 [of s1 s2, symmetric] del: upt_Suc)

lemma lev_rec_ge_diff: "\<bar>int (length a) - int (length b)\<bar> \<le> int (lev_rec a b)"
  using lev_rec_length_diff_le [of b a] by linarith

lemma lev_opt_None: "levenshtein_optimized a b None = int (lev_rec a b)"
proof (cases "length a > length b")
  case True
  then show ?thesis
    unfolding levenshtein_optimized_def Let_def
    using lev_dp_None [of b a] lev_rec_sym [of a b] by simp
next
  case False
  then show ?thesis
    unfolding levenshtein_optimized_def Let_def
    using lev_dp_None [of a b] by simp
qed

lemma lev_opt_Some_exact:
  assumes "int (lev_rec a b) \<le> d \<or> d = 0"
  shows "levenshtein_optimized a b (Some d) = int (lev_rec a b)"
proof -
  have fast: "\<not> (d \<noteq> 0 \<and> \<bar>int (length a) - int (length b)\<bar> > d)"
    using assms lev_rec_ge_diff [of a b] by auto
  show ?thesis
  proof (cases "length a > length b")
    case True
    have "int (lev_rec b a) \<le> d \<or> d = 0" using assms lev_rec_sym [of a b] by simp
    from lev_dp_Some_exact [OF this] True fast show ?thesis
      unfolding levenshtein_optimized_def Let_def
      using lev_rec_sym [of a b] by auto
  next
    case False
    from lev_dp_Some_exact [OF assms] False fast show ?thesis
      unfolding levenshtein_optimized_def Let_def by auto
  qed
qed

lemma lev_opt_Some_cases:
  "levenshtein_optimized a b (Some d) = int (lev_rec a b) \<or>
   (d \<noteq> 0 \<and> d < int (lev_rec a b) \<and> levenshtein_optimized a b (Some d) = d + 1)"
proof (cases "d \<noteq> 0 \<and> \<bar>int (length a) - int (length b)\<bar> > d")
  case True
  then have "levenshtein_optimized a b (Some d) = d + 1"
    unfolding levenshtein_optimized_def Let_def by simp
  moreover have "d < int (lev_rec a b)" using True lev_rec_ge_diff [of a b] by linarith
  ultimately show ?thesis using True by simp
next
  case fast: False
  show ?thesis
  proof (cases "length a > length b")
    case True
    from lev_dp_Some_cases [of b a d] True fast show ?thesis
      unfolding levenshtein_optimized_def Let_def
      using lev_rec_sym [of a b] by auto
  next
    case False
    from lev_dp_Some_cases [of a b d] False fast show ?thesis
      unfolding levenshtein_optimized_def Let_def by auto
  qed
qed

section \<open>Properties of the engine\<close>

subsection \<open>The engine state is only read\<close>

lemma dd_getitem_present:
  "map_of d k = Some v \<Longrightarrow> dd_getitem d k = (v, d)"
  by (simp add: dd_getitem_def)

lemma search_buckets_state:
  "snd (search_buckets e ib md ls sugg) = e"
proof (induction ls arbitrary: sugg)
  case Nil
  then show ?case by simp
next
  case (Cons l ls)
  show ?case
  proof (cases "map_of (words_by_length e) l")
    case None
    then show ?thesis using Cons by simp
  next
    case (Some ws)
    then show ?thesis using Cons
      by (simp add: dd_getitem_present split: sum.splits)
  qed
qed

lemma bucket_search_state: "snd (bucket_search e w md) = e"
  by (simp add: bucket_search_def Let_def search_buckets_state)

lemma suggest_search_state: "snd (suggest_search e w k md) = e"
proof -
  obtain res e' where r: "bucket_search e w md = (res, e')" by (cases "bucket_search e w md")
  then have "e' = e" using bucket_search_state [of e w md] by simp
  with r show ?thesis
    by (simp add: suggest_search_def Let_def split: sum.splits)
qed

lemma suggest_words_state: "snd (suggest_words e w k md) = e"
  by (simp add: suggest_words_def Let_def suggest_search_state split: option.splits)

subsection \<open>Encoder\<close>

lemma lower_char_idem: "lower_char (lower_char c) = lower_char c"
  by (simp add: lower_char_def Let_def)

lemma braille_map_length: "map_of braille_map c = Some p \<Longrightarrow> length p = 6"
  by (drule map_of_SomeD) (auto simp: braille_map_def)

lemma pattern_length:
  "length (case map_of braille_map c of Some pattern \<Rightarrow> pattern | None \<Rightarrow> ''000000'') = 6"
  by (cases "map_of braille_map c") (auto dest: braille_map_length)

lemma length_word_to_braille: "length (word_to_braille w) = 6 * length w"
  unfolding word_to_braille_def
  by (induction w) (simp_all add: pattern_length)

lemma word_to_braille_lower: "word_to_braille (str_lower w) = word_to_braille w"
  by (simp add: word_to_braille_def str_lower_def comp_def lower_char_idem)

lemma word_to_braille_Nil_iff: "word_to_braille w = [] \<longleftrightarrow> w = []"
  using length_word_to_braille [of w] by (metis length_0_conv mult_is_0 zero_neq_numeral)

subsection \<open>The pattern index built by the constructor\<close>

lemma preprocess_word_bw:
  "map_of (fst (preprocess_word w st)) = (map_of (fst st))(w \<mapsto> word_to_braille w)"
  by (simp add: preprocess_word_def Let_def update_conv' split: prod.splits)

lemma preprocess_word_wbl:
  "map_of (snd (preprocess_word w st)) =
     (map_of (snd st))(int (length (word_to_braille w)) \<mapsto>
        (case map_of (snd st) (int (length (word_to_braille w))) of None \<Rightarrow> [] | Some old \<Rightarrow> old) @ [w])"
  by (auto simp: preprocess_word_def Let_def dd_getitem_def update_conv' split: prod.splits option.splits)

lemma preprocess_word_distinct:
  "distinct (map fst (fst st)) \<Longrightarrow> distinct (map fst (fst (preprocess_word w st)))"
  by (simp add: preprocess_word_def Let_def distinct_update split: prod.splits)

lemma fold_preprocess_bw:
  "map_of (fst (fold preprocess_word ws st)) w =
     (if w \<in> set ws then Some (word_to_braille w) else map_of (fst st) w)"
  by (induction ws arbitrary: st) (auto simp: preprocess_word_bw)

lemma fold_preprocess_distinct:
  "distinct (map fst (fst st)) \<Longrightarrow> distinct (map fst (fst (fold preprocess_word ws st)))"
  by (induction ws arbitrary: st) (auto simp: preprocess_word_distinct)

lemma fold_preprocess_wbl:
  "map_of (snd (fold preprocess_word ws st)) l =
     (if filter (\<lambda>w. int (length (word_to_braille w)) = l) ws = [] then map_of (snd st) l
      else Some ((case map_of (snd st) l of None \<Rightarrow> [] | Some old \<Rightarrow> old) @
                 filter (\<lambda>w. int (length (word_to_braille w)) = l) ws))"
proof (induction ws arbitrary: st)
  case Nil
  then show ?case by simp
next
  case (Cons w ws)
  show ?case
    by (simp add: Cons preprocess_word_wbl split: option.splits)
qed

lemma init_dictionary [simp]: "dictionary (init dict uc) = dict"
  by (simp add: init_def preprocess_dictionary_def Let_def)

lemma init_user_corrections [simp]: "user_corrections (init dict uc) = uc"
  by (simp add: init_def preprocess_dictionary_def Let_def)

lemma init_braille_words:
  "map_of (braille_words (init dict uc)) w =
     (if w \<in> set dict then Some (word_to_braille w) else None)"
  by (simp add: init_def preprocess_dictionary_def Let_def fold_preprocess_bw)

lemma init_braille_words_distinct: "distinct (map fst (braille_words (init dict uc)))"
  by (simp add: init_def preprocess_dictionary_def Let_def fold_preprocess_distinct)

lemma init_braille_words_set:
  "set (braille_words (init dict uc)) = (\<lambda>w. (w, word_to_braille w)) ` set dict"
proof (intro set_eqI iffI)
  fix x assume "x \<in> set (braille_words (init dict uc))"
  then have "map_of (braille_words (init dict uc)) (fst x) = Some (snd x)"
    using init_braille_words_distinct [of dict uc] map_of_is_SomeI [of "braille_words (init dict uc)" "fst x" "snd x"]
    by simp
  then show "x \<in> (\<lambda>w. (w, word_to_braille w)) ` set dict"
    by (cases x) (auto simp: init_braille_words split: if_splits)
next
  fix x assume "x \<in> (\<lambda>w. (w, word_to_braille w)) ` set dict"
  then obtain w where w: "w \<in> set dict" "x = (w, word_to_braille w)" by blast
  then have "map_of (braille_words (init dict uc)) w = Some (word_to_braille w)"
    by (simp add: init_braille_words)
  then show "x \<in> set (braille_words (init dict uc))" using w by (auto dest: map_of_SomeD)
qed

lemma init_words_by_length:
  "map_of (words_by_length (init dict uc)) l =
     (if filter (\<lambda>w. int (length (word_to_braille w)) = l) dict = [] then None
      else Some (filter (\<lambda>w. int (length (word_to_braille w)) = l) dict))"
  by (simp add: init_def preprocess_dictionary_def Let_def fold_preprocess_wbl)

text \<open>\<open>remember_choice\<close> changes the learned corrections only, so every engine reached
  from the constructor is \<open>init dict uc\<close> for the word list given and some mapping \<open>uc\<close>.\<close>

lemma remember_choice_init:
  "remember_choice (init dict uc) typed corrected =
     init dict (AList.update (str_lower typed) (str_lower corrected) uc)"
  by (simp add: remember_choice_def init_def preprocess_dictionary_def Let_def)

subsection \<open>What the bucket scan keeps\<close>

lemma score_word_Inr:
  "score_word e ib md w sugg = Inr s' \<Longrightarrow> s' = sugg @ candidate e ib md w"
  by (auto simp: score_word_def candidate_def Let_def split: option.splits if_splits)

lemma score_words_Inr:
  "score_words e ib md ws sugg = Inr s' \<Longrightarrow> s' = sugg @ concat (map (candidate e ib md) ws)"
proof (induction ws arbitrary: sugg)
  case Nil
  then show ?case by simp
next
  case (Cons w ws)
  from Cons.prems obtain s1 where s1: "score_word e ib md w sugg = Inr s1"
    and r: "score_words e ib md ws s1 = Inr s'"
    by (auto split: sum.splits)
  from score_word_Inr [OF s1] Cons.IH [OF r] show ?case by simp
qed

lemma search_buckets_Inr:
  "fst (search_buckets e ib md ls sugg) = Inr s' \<Longrightarrow>
   s' = sugg @ concat (map (bucket_candidates e ib md) ls)"
proof (induction ls arbitrary: sugg)
  case Nil
  then show ?case by simp
next
  case (Cons l ls)
  show ?case
  proof (cases "map_of (words_by_length e) l")
    case None
    with Cons show ?thesis by (simp add: bucket_candidates_def)
  next
    case (Some ws)
    with Cons.prems obtain s1 where s1: "score_words e ib md ws sugg = Inr s1"
      and r: "fst (search_buckets e ib md ls s1) = Inr s'"
      by (auto simp: dd_getitem_present split: sum.splits)
    from score_words_Inr [OF s1] Cons.IH [OF r] Some show ?thesis
      by (simp add: bucket_candidates_def)
  qed
qed

text \<open>When the scan does not raise.\<close>

lemma score_word_total:
  assumes "map_of (braille_words e) w = Some code" "ib \<noteq> [] \<or> code \<noteq> []"
  shows "\<exists>s'. score_word e ib md w sugg = Inr s'"
proof -
  have "length ib + length code \<noteq> 0" using assms(2) by auto
  then have "int (length ib) + int (length code) \<noteq> 0" by linarith
  with assms(1) show ?thesis by (simp add: score_word_def Let_def)
qed

lemma score_words_total:
  assumes "\<forall>w\<in>set ws. \<exists>code. map_of (braille_words e) w = Some code \<and> (ib \<noteq> [] \<or> code \<noteq> [])"
  shows "\<exists>s'. score_words e ib md ws sugg = Inr s'"
  using assms
proof (induction ws arbitrary: sugg)
  case Nil
  then show ?case by simp
next
  case (Cons w ws)
  from Cons.prems obtain code where "map_of (braille_words e) w = Some code" "ib \<noteq> [] \<or> code \<noteq> []"
    by auto
  from score_word_total [OF this] obtain s1 where s1: "score_word e ib md w sugg = Inr s1" by blast
  from Cons.IH [of s1] Cons.prems obtain s' where "score_words e ib md ws s1 = Inr s'" by auto
  with s1 show ?case by simp
qed

lemma search_buckets_total:
  assumes "\<forall>l ws. map_of (words_by_length e) l = Some ws \<longrightarrow>
             (\<forall>w\<in>set ws. \<exists>code. map_of (braille_words e) w = Some code \<and> (ib \<noteq> [] \<or> code \<noteq> []))"
  shows "\<exists>s'. fst (search_buckets e ib md ls sugg) = Inr s'"
proof (induction ls arbitrary: sugg)
  case Nil
  then show ?case by simp
next
  case (Cons l ls)
  show ?case
  proof (cases "map_of (words_by_length e) l")
    case None
    with Cons show ?thesis by simp
  next
    case (Some ws)
    with assms have "\<forall>w\<in>set ws. \<exists>code. map_of (braille_words e) w = Some code \<and> (ib \<noteq> [] \<or> code \<noteq> [])"
      by blast
    from score_words_total [OF this] obtain s1 where s1: "score_words e ib md ws sugg = Inr s1"
      by blast
    from Cons [of s1] obtain s' where "fst (search_buckets e ib md ls s1) = Inr s'" by blast
    with s1 Some show ?thesis by (simp add: dd_getitem_present)
  qed
qed

subsection \<open>Every kept candidate is scored as the source scores it\<close>

lemma score_word_kept:
  assumes "score_word e ib md w sugg = Inr s'" "\<forall>x\<in>set sugg. kept_ok e ib md x"
  shows "\<forall>x\<in>set s'. kept_ok e ib md x"
proof (cases "map_of (braille_words e) w")
  case None
  with assms show ?thesis by (simp add: score_word_def)
next
  case (Some code)
  let ?d = "levenshtein_optimized ib code (Some md)"
  show ?thesis
  proof (cases "?d \<le> md")
    case False
    with assms Some show ?thesis by (simp add: score_word_def Let_def)
  next
    case True
    show ?thesis
    proof (cases "int (length ib) + int (length code) = 0")
      case True
      with assms Some \<open>?d \<le> md\<close> show ?thesis by (simp add: score_word_def Let_def)
    next
      case False
      then have pos: "0 < int (length ib) + int (length code)" by linarith
      have s': "s' = sugg @ [(w, ?d, py_round3 (confidence_score e ib code w ?d))]"
        using assms(1) Some True False by (simp add: score_word_def Let_def)
      have "kept_ok e ib md (w, ?d, py_round3 (confidence_score e ib code w ?d))"
        unfolding kept_ok_def using Some True pos
        by (auto simp: confidence_score_def Let_def)
      with assms(2) s' show ?thesis by simp
    qed
  qed
qed

lemma score_words_kept:
  "score_words e ib md ws sugg = Inr s' \<Longrightarrow> \<forall>x\<in>set sugg. kept_ok e ib md x \<Longrightarrow>
   \<forall>x\<in>set s'. kept_ok e ib md x"
proof (induction ws arbitrary: sugg)
  case Nil
  then show ?case by simp
next
  case (Cons w ws)
  from Cons.prems(1) obtain s1 where s1: "score_word e ib md w sugg = Inr s1"
    and r: "score_words e ib md ws s1 = Inr s'"
    by (auto split: sum.splits)
  from score_word_kept [OF s1 Cons.prems(2)] Cons.IH [OF r] show ?case by blast
qed

lemma search_buckets_kept:
  "fst (search_buckets e ib md ls sugg) = Inr s' \<Longrightarrow> \<forall>x\<in>set sugg. kept_ok e ib md x \<Longrightarrow>
   \<forall>x\<in>set s'. kept_ok e ib md x"
proof (induction ls arbitrary: sugg)
  case Nil
  then show ?case by simp
next
  case (Cons l ls)
  show ?case
  proof (cases "map_of (words_by_length e) l")
    case None
    with Cons show ?thesis by simp
  next
    case (Some ws)
    with Cons.prems(1) obtain s1 where s1: "score_words e ib md ws sugg = Inr s1"
      and r: "fst (search_buckets e ib md ls s1) = Inr s'"
      by (auto simp: dd_getitem_present split: sum.splits)
    from score_words_kept [OF s1 Cons.prems(2)] Cons.IH [OF r] show ?thesis by blast
  qed
qed

lemma bucket_search_kept:
  assumes "fst (bucket_search e w budget) = Inr sugg" "x \<in> set sugg"
  shows "kept_ok e (word_to_braille w) (adaptive_max_distance w budget) x"
  using assms search_buckets_kept [of e "word_to_braille w" "adaptive_max_distance w budget" _ "[]" sugg]
  by (simp add: bucket_search_def Let_def)

subsection \<open>Bounds\<close>

lemma kept_distance_exact:
  assumes "d = levenshtein_optimized a b (Some md)" "d \<le> md"
  shows "d = int (lev_rec a b)"
  using assms lev_opt_Some_cases [of a b md] by auto

lemma py_round3_ge: "of_int m / 1000 \<le> x \<Longrightarrow> of_int m / 1000 \<le> py_round3 x"
proof -
  assume "of_int m / 1000 \<le> x"
  then have "of_int m \<le> x * 1000" by (simp add: field_simps)
  then have "m \<le> \<lfloor>x * 1000\<rfloor>" by (simp add: le_floor_iff)
  then show ?thesis unfolding py_round3_def Let_def
    by (simp add: divide_le_cancel)
qed

lemma py_round3_le: "x \<le> of_int m / 1000 \<Longrightarrow> py_round3 x \<le> of_int m / 1000"
proof -
  assume "x \<le> of_int m / 1000"
  then have y: "x * 1000 \<le> of_int m" by (simp add: field_simps)
  then have f: "\<lfloor>x * 1000\<rfloor> \<le> m" by (meson floor_le_iff le_less_trans less_add_one of_int_floor_le order.trans floor_mono floor_of_int)
  show ?thesis
  proof (cases "\<lfloor>x * 1000\<rfloor> = m")
    case True
    then have "x * 1000 - of_int \<lfloor>x * 1000\<rfloor> \<le> 0" using y by simp
    then have "x * 1000 - of_int \<lfloor>x * 1000\<rfloor> < 1 / 2" by linarith
    then show ?thesis unfolding py_round3_def Let_def using True by (simp add: divide_le_cancel)
  next
    case False
    with f have "\<lfloor>x * 1000\<rfloor> + 1 \<le> m" by simp
    then show ?thesis unfolding py_round3_def Let_def using f
      by (simp add: divide_le_cancel)
  qed
qed



lemma py_round3_bounds:
  "0 \<le> x \<Longrightarrow> 0 \<le> py_round3 x" "x \<le> 1 \<Longrightarrow> py_round3 x \<le> 1" "x \<le> 11 / 10 \<Longrightarrow> py_round3 x \<le> 11 / 10"
  using py_round3_ge [of 0 x] py_round3_le [of x 1000] py_round3_le [of x 1100] by simp_all

lemma ratio_bounds:
  assumes "0 \<le> d" "d \<le> L" "0 < (L::int)"
  shows "0 \<le> (of_int d / of_int L :: rat)" "(of_int d / of_int L :: rat) \<le> 1"
  using assms by simp_all

lemma kept_ok_bounds:
  assumes "kept_ok e ib md x"
  shows "0 \<le> fst (snd x)" "0 \<le> snd (snd x)" "snd (snd x) \<le> 11 / 10"
    "fst x \<notin> snd ` set (user_corrections e) \<Longrightarrow> snd (snd x) \<le> 1"
proof -
  from assms obtain code where c: "map_of (braille_words e) (fst x) = Some code"
    "fst (snd x) = levenshtein_optimized ib code (Some md)" "fst (snd x) \<le> md"
    "0 < int (length ib) + int (length code)"
    "snd (snd x) =
          py_round3 (1 - of_int (fst (snd x)) / of_int (int (length ib) + int (length code)) +
                     (if fst x \<in> snd ` set (user_corrections e) then 1 / 10 else 0))"
    unfolding kept_ok_def by blast
  let ?L = "int (length ib) + int (length code)"
  have d: "fst (snd x) = int (lev_rec ib code)" using kept_distance_exact [OF c(2) c(3)] .
  then show d0: "0 \<le> fst (snd x)" by simp
  have "lev_rec ib code \<le> max (length ib) (length code)" by (rule lev_rec_le_max)
  then have dL: "fst (snd x) \<le> ?L" using d by linarith
  have r0: "0 \<le> (of_int (fst (snd x)) / of_int ?L :: rat)"
    and r1: "(of_int (fst (snd x)) / of_int ?L :: rat) \<le> 1"
    using ratio_bounds [OF d0 dL c(4)] by blast+
  define r :: rat where "r = of_int (fst (snd x)) / of_int ?L"
  define b where "b = (fst x \<in> snd ` set (user_corrections e))"
  have c5: "snd (snd x) = py_round3 (1 - r + (if b then 1 / 10 else 0))"
    using c(5) by (simp only: r_def b_def)
  have r0': "0 \<le> r" and r1': "r \<le> 1" using r0 r1 by (simp_all only: r_def)
  have "0 \<le> 1 - r + (if b then 1 / 10 else 0)" using r1' by (cases b) simp_all
  then show "0 \<le> snd (snd x)" unfolding c5 by (rule py_round3_bounds)
  have "1 - r + (if b then 1 / 10 else 0) \<le> 11 / 10" using r0' by (cases b) simp_all
  then show "snd (snd x) \<le> 11 / 10" unfolding c5 by (rule py_round3_bounds)
  assume "fst x \<notin> snd ` set (user_corrections e)"
  then have "\<not> b" by (simp add: b_def)
  then have "1 - r + (if b then 1 / 10 else 0) \<le> 1" using r0' by simp
  then show "snd (snd x) \<le> 1" unfolding c5 by (rule py_round3_bounds)
qed

subsection \<open>The shape of the result\<close>

lemma sort_key_Nil_iff: "sort_key f xs = [] \<longleftrightarrow> xs = []"
  using length_sort [of f xs] by (metis length_0_conv)

lemma suggest_search_cases:
  assumes "fst (suggest_search e w k md) = Inr r"
  shows "\<exists>sugg. fst (bucket_search e w md) = Inr sugg \<and>
           (if sugg = [] then r = fallback e (word_to_braille w)
            else r = py_slice_to k (sort_key (\<lambda>x. (fst (snd x), - snd (snd x))) sugg))"
proof -
  obtain res e' where b: "bucket_search e w md = (res, e')" by (cases "bucket_search e w md")
  then have e': "e' = e" using bucket_search_state [of e w md] by simp
  show ?thesis
  proof (cases res)
    case (Inl err)
    with assms b show ?thesis by (simp add: suggest_search_def)
  next
    case (Inr sugg)
    with assms b e' show ?thesis
      by (auto simp: suggest_search_def Let_def sort_key_Nil_iff split: if_splits)
  qed
qed

lemma suggest_search_Inr:
  assumes "fst (bucket_search e w md) = Inr sugg"
  shows "fst (suggest_search e w k md) =
           Inr (if sugg = [] then fallback e (word_to_braille w)
                else py_slice_to k (sort_key (\<lambda>x. (fst (snd x), - snd (snd x))) sugg))"
proof -
  obtain res e' where b: "bucket_search e w md = (res, e')" by (cases "bucket_search e w md")
  then have e': "e' = e" using bucket_search_state [of e w md] by simp
  from b assms have "res = Inr sugg" by simp
  with b e' show ?thesis
    by (simp add: suggest_search_def Let_def sort_key_Nil_iff)
qed

lemma suggest_words_learned:
  "learned_correction e (str_lower w) = Some c \<Longrightarrow> suggest_words e w k md = (Inr [(c, 0, 1)], e)"
  by (simp add: suggest_words_def Let_def)

lemma suggest_words_search:
  "learned_correction e (str_lower w) = None \<Longrightarrow>
   suggest_words e w k md = suggest_search e (str_lower w) k md"
  by (simp add: suggest_words_def Let_def)

lemma length_fallback: "length (fallback e ib) \<le> 1"
  by (simp add: fallback_def py_slice_to_def Let_def)

lemma fallback_conf: "x \<in> set (fallback e ib) \<Longrightarrow> snd (snd x) = 0"
  by (auto simp: fallback_def py_slice_to_def Let_def dest!: in_set_takeD)

lemma set_py_slice_to: "set (py_slice_to k xs) \<subseteq> set xs"
  by (auto simp: py_slice_to_def dest: in_set_takeD)

lemma sorted_wrt_py_slice_to: "sorted_wrt R xs \<Longrightarrow> sorted_wrt R (py_slice_to k xs)"
  by (simp add: py_slice_to_def sorted_wrt_take)

lemma sorted_wrt_ranking:
  "sorted_wrt (\<lambda>x y. fst (snd x) < fst (snd y) \<or> (fst (snd x) = fst (snd y) \<and> snd (snd y) \<le> snd (snd x)))
     (sort_key (\<lambda>x. (fst (snd x), - snd (snd x))) (sugg :: suggestion list))"
proof -
  have "sorted (map (\<lambda>x. (fst (snd x), - snd (snd x))) (sort_key (\<lambda>x. (fst (snd x), - snd (snd x))) sugg))"
    by (rule sorted_sort_key)
  then have "sorted_wrt (\<lambda>x y. (fst (snd x), - snd (snd x)) \<le> (fst (snd y), - snd (snd y)))
     (sort_key (\<lambda>x. (fst (snd x), - snd (snd x))) sugg)"
    by (simp add: sorted_map)
  then show ?thesis
    by (rule sorted_wrt_mono_rel [rotated]) (auto simp: less_eq_prod_def)
qed

subsection \<open>The scan on a constructed engine\<close>

lemma init_bucket_words:
  assumes "map_of (words_by_length (init dict uc)) l = Some ws" "v \<in> set ws"
  shows "v \<in> set dict \<and> int (length (word_to_braille v)) = l \<and>
         map_of (braille_words (init dict uc)) v = Some (word_to_braille v)"
proof -
  from assms(1) have "ws = filter (\<lambda>w. int (length (word_to_braille w)) = l) dict"
    by (simp add: init_words_by_length split: if_splits)
  with assms(2) show ?thesis by (simp add: init_braille_words)
qed

lemma bucket_search_total:
  assumes "w \<noteq> [] \<or> [] \<notin> set dict"
  shows "\<exists>sugg. fst (bucket_search (init dict uc) w budget) = Inr sugg"
proof -
  have "\<forall>l ws. map_of (words_by_length (init dict uc)) l = Some ws \<longrightarrow>
          (\<forall>v\<in>set ws. \<exists>code. map_of (braille_words (init dict uc)) v = Some code \<and>
                              (word_to_braille w \<noteq> [] \<or> code \<noteq> []))"
  proof (intro allI impI ballI)
    fix l ws v
    assume "map_of (words_by_length (init dict uc)) l = Some ws" "v \<in> set ws"
    from init_bucket_words [OF this]
    have v: "v \<in> set dict" "map_of (braille_words (init dict uc)) v = Some (word_to_braille v)"
      by simp_all
    have "word_to_braille w \<noteq> [] \<or> word_to_braille v \<noteq> []"
      using assms v(1) by (auto simp: word_to_braille_Nil_iff)
    with v(2) show "\<exists>code. map_of (braille_words (init dict uc)) v = Some code \<and>
                              (word_to_braille w \<noteq> [] \<or> code \<noteq> [])"
      by blast
  qed
  from search_buckets_total [OF this] show ?thesis
    by (simp add: bucket_search_def Let_def)
qed

subsection \<open>Heads of sorted lists\<close>

lemma sorted_hd_min:
  "sorted (map f xs) \<Longrightarrow> y \<in> set xs \<Longrightarrow> f (hd xs) \<le> f y"
  by (cases xs) auto

lemma hd_sort_key_min:
  assumes "y \<in> set xs"
  shows "f (hd (sort_key f xs)) \<le> f y"
  using sorted_hd_min [of f "sort_key f xs" y] assms by simp

lemma hd_sort_key_in:
  assumes "xs \<noteq> []"
  shows "hd (sort_key f xs) \<in> set xs"
proof -
  have "sort_key f xs \<noteq> []" using assms by (simp add: sort_key_Nil_iff)
  then have "hd (sort_key f xs) \<in> set (sort_key f xs)" by (rule hd_in_set)
  then show ?thesis by simp
qed

lemma take_1_hd: "xs \<noteq> [] \<Longrightarrow> take (Suc 0) xs = [hd xs]"
  by (cases xs) auto

lemma py_slice_to_Cons:
  "1 \<le> k \<Longrightarrow> xs \<noteq> [] \<Longrightarrow> \<exists>rest. py_slice_to k xs = hd xs # rest"
  by (cases xs) (auto simp: py_slice_to_def take_Cons')

lemma hd_ranking_unique:
  fixes xs :: "suggestion list"
  assumes "x0 \<in> set xs" "fst (snd x0) = 0"
    and "\<forall>x\<in>set xs. 0 \<le> fst (snd x)"
    and "\<forall>x\<in>set xs. fst (snd x) = 0 \<longrightarrow> x = x0"
  shows "hd (sort_key (\<lambda>x. (fst (snd x), - snd (snd x))) xs) = x0"
proof -
  let ?h = "hd (sort_key (\<lambda>x. (fst (snd x), - snd (snd x))) xs)"
  have ne: "xs \<noteq> []" using assms(1) by auto
  have h: "?h \<in> set xs" using ne by (rule hd_sort_key_in)
  have "(fst (snd ?h), - snd (snd ?h)) \<le> (fst (snd x0), - snd (snd x0))"
    using hd_sort_key_min [OF assms(1), of "\<lambda>x. (fst (snd x), - snd (snd x))"] .
  then have "fst (snd ?h) \<le> 0" using assms(2) by (auto simp: less_eq_prod_def)
  moreover have "0 \<le> fst (snd ?h)" using assms(3) h by blast
  ultimately have "fst (snd ?h) = 0" by simp
  with assms(4) h show ?thesis by blast
qed

subsection \<open>The fallback on a constructed engine\<close>

lemma fallback_init:
  assumes "dict \<noteq> []"
  shows "\<exists>x\<in>set dict.
           fallback (init dict uc) ib = [(x, int (lev_rec ib (word_to_braille x)), 0)] \<and>
           (\<forall>y\<in>set dict. lev_rec ib (word_to_braille x) \<le> lev_rec ib (word_to_braille y))"
proof -
  let ?g = "\<lambda>(word, braille). (word, levenshtein_optimized ib braille None, 0 :: rat)"
  let ?fb = "map ?g (braille_words (init dict uc))"
  let ?S = "sort_key (\<lambda>x. fst (snd x)) ?fb"
  have set_fb: "set ?fb = (\<lambda>w. (w, int (lev_rec ib (word_to_braille w)), 0)) ` set dict"
    by (simp add: init_braille_words_set image_image lev_opt_None)
  have "set (braille_words (init dict uc)) \<noteq> {}"
    using assms by (simp add: init_braille_words_set)
  then have "braille_words (init dict uc) \<noteq> []" by auto
  then have ne: "?fb \<noteq> []" by simp
  have fb: "fallback (init dict uc) ib = [hd ?S]"
    using ne by (simp add: fallback_def py_slice_to_def Let_def take_1_hd sort_key_Nil_iff)
  have "hd ?S \<in> set ?fb" using ne by (rule hd_sort_key_in)
  with set_fb obtain x where x: "x \<in> set dict" "hd ?S = (x, int (lev_rec ib (word_to_braille x)), 0)"
    by auto
  have "\<forall>y\<in>set dict. lev_rec ib (word_to_braille x) \<le> lev_rec ib (word_to_braille y)"
  proof
    fix y assume "y \<in> set dict"
    then have "(y, int (lev_rec ib (word_to_braille y)), 0) \<in> set ?fb" using set_fb by blast
    from hd_sort_key_min [OF this, of "\<lambda>x. fst (snd x)"] x(2)
    show "lev_rec ib (word_to_braille x) \<le> lev_rec ib (word_to_braille y)" by simp
  qed
  with x fb show ?thesis by auto
qed

subsection \<open>The exact match among the kept candidates\<close>

lemma py_round3_1: "py_round3 1 = 1" "py_round3 (11 / 10) = 11 / 10"
  by (simp_all add: py_round3_def Let_def)

lemma adaptive_None_nonneg: "0 \<le> adaptive_max_distance w None"
  by (simp add: adaptive_max_distance_def)

lemma candidate_exact:
  assumes "map_of (braille_words e) w = Some ib" "0 \<le> md"
  shows "candidate e ib md w =
           [(w, 0, if w \<in> snd ` set (user_corrections e) then 11 / 10 else 1)]"
proof -
  have "levenshtein_optimized ib ib (Some md) = 0"
    using lev_opt_Some_exact [of ib ib md] assms(2) by (simp add: lev_rec_refl)
  with assms show ?thesis
    by (simp add: candidate_def confidence_score_def Let_def py_round3_1)
qed

lemma exact_candidate_kept:
  assumes "w \<in> set dict" "0 \<le> md" "ib = word_to_braille w"
    and "fst (search_buckets (init dict uc) ib md (search_lengths (int (length ib)) md) []) = Inr sugg"
  shows "(w, 0, if w \<in> snd ` set uc then 11 / 10 else 1) \<in> set sugg"
proof -
  let ?e = "init dict uc"
  let ?ws = "filter (\<lambda>v. int (length (word_to_braille v)) = int (length ib)) dict"
  have w: "w \<in> set ?ws" using assms(1,3) by simp
  then have b: "map_of (words_by_length ?e) (int (length ib)) = Some ?ws"
    by (auto simp: init_words_by_length filter_empty_conv)
  have bw: "map_of (braille_words ?e) w = Some ib"
    using assms(1,3) by (simp add: init_braille_words)
  define x0 :: suggestion where "x0 = (w, 0, if w \<in> snd ` set uc then 11 / 10 else 1)"
  have "x0 \<in> set (candidate ?e ib md w)"
    using candidate_exact [OF bw assms(2)] by (simp add: x0_def)
  with w have "x0 \<in> set (concat (map (candidate ?e ib md) ?ws))"
    by (simp only: set_concat set_map) blast
  then have xb: "x0 \<in> set (bucket_candidates ?e ib md (int (length ib)))"
    unfolding bucket_candidates_def b by simp
  have sl: "int (length ib) \<in> set (search_lengths (int (length ib)) md)"
    by (simp add: search_lengths_def)
  have sugg: "sugg = concat (map (bucket_candidates ?e ib md) (search_lengths (int (length ib)) md))"
    using search_buckets_Inr [OF assms(4)] by simp
  have "x0 \<in> set sugg"
    unfolding sugg using xb sl by (simp only: set_concat set_map) blast
  then show ?thesis by (simp only: x0_def)
qed

lemma zero_distance_kept:
  assumes "kept_ok (init dict uc) (word_to_braille w) md x" "fst (snd x) = 0"
    and "\<forall>v\<in>set dict. word_to_braille v = word_to_braille w \<longrightarrow> v = w"
  shows "x = (w, 0, if w \<in> snd ` set uc then 11 / 10 else 1)"
proof -
  let ?ib = "word_to_braille w"
  from assms(1) obtain code where c: "map_of (braille_words (init dict uc)) (fst x) = Some code"
    "fst (snd x) = levenshtein_optimized ?ib code (Some md)" "fst (snd x) \<le> md"
    "snd (snd x) =
          py_round3 (1 - of_int (fst (snd x)) / of_int (int (length ?ib) + int (length code)) +
                     (if fst x \<in> snd ` set (user_corrections (init dict uc)) then 1 / 10 else 0))"
    unfolding kept_ok_def by blast
  have "fst (snd x) = int (lev_rec ?ib code)" using kept_distance_exact [OF c(2) c(3)] .
  with assms(2) have "code = ?ib" by (simp add: lev_rec_0_iff)
  moreover from c(1) have "fst x \<in> set dict" "code = word_to_braille (fst x)"
    by (auto simp: init_braille_words split: if_splits)
  ultimately have fx: "fst x = w" using assms(3) by simp
  have "snd (snd x) = (if w \<in> snd ` set uc then 11 / 10 else 1)"
    using c(4) assms(2) fx by (simp add: py_round3_1)
  with fx assms(2) show ?thesis by (cases x) auto
qed

section \<open>Claims about the distance engine\<close>

text \<open>
  Claim C3. Called without a budget, \<open>levenshtein_optimized\<close> returns the reference
  Levenshtein distance of its two arguments: the least number of single-character
  insertions, deletions and substitutions that turn the first into the second.
\<close>

theorem levenshtein_no_budget_exact:
  "levenshtein_optimized a b None = int (edit_distance a b)"
  by (simp add: lev_opt_None edit_distance_rec)

theorem levenshtein_no_budget_exact_witness:
  "levenshtein_optimized ''kitten'' ''sitting'' None = 3 \<and> edit_distance ''kitten'' ''sitting'' = 3"
proof -
  have "levenshtein_optimized ''kitten'' ''sitting'' None = 3" by code_simp
  with levenshtein_no_budget_exact [of "''kitten''" "''sitting''"] show ?thesis by simp
qed

text \<open>
  Claim C2, as stated: whenever the true edit distance exceeds a non-negative budget
  \<open>d\<close>, the result is exactly \<open>d + 1\<close>. This fails: the early return fires only when a
  whole row exceeds the budget, and for \<open>0011\<close> against \<open>1100\<close> with budget 2 every row
  keeps an entry of at most 2 although the distance is 4, so the loop runs to its end and
  the true distance 4 is returned, not 3.
\<close>

theorem levenshtein_sentinel_counterexample:
  "(0::int) \<le> 2 \<and> 2 < int (edit_distance ''0011'' ''1100'') \<and>
   levenshtein_optimized ''0011'' ''1100'' (Some 2) \<noteq> 2 + 1"
proof -
  have e: "edit_distance ''0011'' ''1100'' = 4" unfolding edit_distance_rec by code_simp
  have l: "levenshtein_optimized ''0011'' ''1100'' (Some 2) = 4" by code_simp
  from e l show ?thesis by simp
qed

text \<open>
  Claim C2, amended: whenever the true edit distance exceeds a non-negative budget
  \<open>d\<close>, the result is greater than \<open>d\<close>, and it is either \<open>d + 1\<close> or the true
  distance.
\<close>

theorem levenshtein_over_budget:
  "0 \<le> d \<Longrightarrow> d < int (edit_distance a b) \<Longrightarrow>
   d < levenshtein_optimized a b (Some d) \<and>
   (levenshtein_optimized a b (Some d) = d + 1 \<or>
    levenshtein_optimized a b (Some d) = int (edit_distance a b))"
  using lev_opt_Some_cases [of a b d] by (auto simp: edit_distance_rec)

theorem levenshtein_over_budget_witness:
  "(0::int) \<le> 1 \<and> 1 < int (edit_distance ''000'' ''111'') \<and>
   levenshtein_optimized ''000'' ''111'' (Some 1) = 2"
proof -
  have e: "edit_distance ''000'' ''111'' = 3" unfolding edit_distance_rec by code_simp
  have l: "levenshtein_optimized ''000'' ''111'' (Some 1) = 2" by code_simp
  have "(0::int) \<le> 1" by simp
  moreover have "1 < int (edit_distance ''000'' ''111'')" using e by simp
  ultimately have "1 < levenshtein_optimized ''000'' ''111'' (Some 1)"
    using levenshtein_over_budget [of 1 "''000''" "''111''"] by blast
  with e l show ?thesis by simp
qed

section \<open>Claims about the candidate search\<close>

text \<open>
  Claim C10. \<open>suggest_words\<close> leaves the engine as it found it: the dictionary, the
  word-to-code map, the length buckets with their set of keys, and the learned
  corrections. The buckets are a \<open>defaultdict\<close>, whose subscript creates absent keys, but
  the scan subscripts it only under the test \<open>length in self.words_by_length\<close>, so probing
  an absent length creates nothing. The state returned with the result, also when the call
  raises, is the state given.
\<close>

theorem suggest_words_frame:
  "snd (suggest_words e input_word max_suggestions max_distance) = e"
  by (rule suggest_words_state)

theorem suggest_words_frame_witness:
  "words_by_length (snd (suggest_words (init [''cat'', ''help''] []) ''dg'' 3 None)) =
     [(18, [''cat'']), (24, [''help''])]"
proof -
  have "words_by_length (init [''cat'', ''help''] []) = [(18, [''cat'']), (24, [''help''])]"
    by code_simp
  with suggest_words_frame [of "init [''cat'', ''help''] []" "''dg''" 3 None] show ?thesis by simp
qed

text \<open>
  Claim C4. When the lowercased typed word is a key of the learned corrections and the
  word stored for it is in the dictionary, \<open>suggest_words\<close> returns exactly the single
  suggestion \<open>(corrected, 0, 1.0)\<close>, whatever \<open>k\<close> and the budget are; in particular this
  is so for \<open>xyz\<close> after \<open>remember_choice("xyz", "cat")\<close> with \<open>cat\<close> in the dictionary.
\<close>

theorem learned_short_circuit:
  "(map_of (user_corrections e) (str_lower t) = Some corrected \<and> corrected \<in> set (dictionary e)
      \<longrightarrow> fst (suggest_words e t k budget) = Inr [(corrected, 0, 1)]) \<and>
   (''cat'' \<in> set (dictionary e)
      \<longrightarrow> fst (suggest_words (remember_choice e ''xyz'' ''cat'') ''xyz'' k budget) = Inr [(''cat'', 0, 1)])"
proof (intro conjI impI)
  assume "map_of (user_corrections e) (str_lower t) = Some corrected \<and> corrected \<in> set (dictionary e)"
  then have "learned_correction e (str_lower t) = Some corrected"
    by (simp add: learned_correction_def)
  then show "fst (suggest_words e t k budget) = Inr [(corrected, 0, 1)]"
    by (simp add: suggest_words_learned)
next
  assume "''cat'' \<in> set (dictionary e)"
  moreover have "str_lower ''xyz'' = ''xyz''" "str_lower ''cat'' = ''cat''"
    by (simp_all add: str_lower_def lower_char_def)
  ultimately have "learned_correction (remember_choice e ''xyz'' ''cat'') (str_lower ''xyz'') = Some ''cat''"
    by (simp add: learned_correction_def remember_choice_def update_conv')
  then show "fst (suggest_words (remember_choice e ''xyz'' ''cat'') ''xyz'' k budget) = Inr [(''cat'', 0, 1)]"
    by (simp add: suggest_words_learned)
qed

theorem learned_short_circuit_witness:
  "map_of (user_corrections (init default_dictionary [(''dg'', ''dog'')])) (str_lower ''DG'') = Some ''dog'' \<and>
   ''dog'' \<in> set (dictionary (init default_dictionary [(''dg'', ''dog'')])) \<and>
   fst (suggest_words (init default_dictionary [(''dg'', ''dog'')]) ''DG'' 5 None) = Inr [(''dog'', 0, 1)] \<and>
   ''cat'' \<in> set (dictionary (init default_dictionary [(''dg'', ''dog'')])) \<and>
   fst (suggest_words (remember_choice (init default_dictionary [(''dg'', ''dog'')]) ''xyz'' ''cat'')
          ''xyz'' 5 None) = Inr [(''cat'', 0, 1)]"
proof -
  have a: "map_of (user_corrections (init default_dictionary [(''dg'', ''dog'')])) (str_lower ''DG'') = Some ''dog''"
    by code_simp
  have b: "''dog'' \<in> set (dictionary (init default_dictionary [(''dg'', ''dog'')]))"
    by (simp add: default_dictionary_def)
  have c: "''cat'' \<in> set (dictionary (init default_dictionary [(''dg'', ''dog'')]))"
    by (simp add: default_dictionary_def)
  from a b c
    learned_short_circuit [of "init default_dictionary [(''dg'', ''dog'')]" "''DG''" "''dog''" 5 None]
  show ?thesis by blast
qed

text \<open>
  Claim C9, as stated: with at least two suggestions returned the list is ordered by
  distance and then by descending confidence, and its length never exceeds \<open>k\<close>. The
  order holds; the length bound fails for a negative \<open>k\<close>, where the slice
  \<open>suggestions[:k]\<close> drops the last \<open>|k|\<close> candidates: \<open>k = -1\<close> on three kept
  candidates returns two.
\<close>

theorem ranking_length_counterexample:
  "fst (suggest_words (init [''cat'', ''cap'', ''car''] []) ''cat'' (- 1) None) =
     Inr [(''cat'', 0, 1), (''cap'', 2, 118 / 125)] \<and>
   \<not> int (length [(''cat'', 0 :: int, 1 :: rat), (''cap'', 2, 118 / 125)]) \<le> - 1"
proof -
  have "fst (suggest_words (init [''cat'', ''cap'', ''car''] []) ''cat'' (- 1) None) =
     Inr [(''cat'', 0, 1), (''cap'', 2, 118 / 125)]"
    by code_simp
  then show ?thesis by simp
qed

text \<open>
  Claim C9, amended: whenever at least two suggestions are returned, the list is
  non-decreasing in distance and, among equal distances, non-increasing in confidence;
  and if \<open>k\<close> is not negative its length does not exceed \<open>k\<close>.
\<close>

theorem ranking_order:
  assumes "fst (suggest_words e w k budget) = Inr r" "2 \<le> length r"
  shows "sorted_wrt (\<lambda>x y. fst (snd x) < fst (snd y) \<or>
                         (fst (snd x) = fst (snd y) \<and> snd (snd y) \<le> snd (snd x))) r \<and>
         (0 \<le> k \<longrightarrow> int (length r) \<le> k)"
proof (cases "learned_correction e (str_lower w)")
  case (Some c)
  with assms(1) have "r = [(c, 0, 1)]" by (simp add: suggest_words_learned)
  with assms(2) show ?thesis by simp
next
  case None
  with assms(1) have "fst (suggest_search e (str_lower w) k budget) = Inr r"
    by (simp add: suggest_words_search)
  from suggest_search_cases [OF this] obtain sugg where
    s: "if sugg = [] then r = fallback e (word_to_braille (str_lower w))
        else r = py_slice_to k (sort_key (\<lambda>x. (fst (snd x), - snd (snd x))) sugg)"
    by blast
  show ?thesis
  proof (cases "sugg = []")
    case True
    with s assms(2) length_fallback [of e "word_to_braille (str_lower w)"] show ?thesis by simp
  next
    case False
    with s have r: "r = py_slice_to k (sort_key (\<lambda>x. (fst (snd x), - snd (snd x))) sugg)" by simp
    have "sorted_wrt (\<lambda>x y. fst (snd x) < fst (snd y) \<or>
                         (fst (snd x) = fst (snd y) \<and> snd (snd y) \<le> snd (snd x))) r"
      unfolding r by (rule sorted_wrt_py_slice_to) (rule sorted_wrt_ranking)
    moreover have "0 \<le> k \<longrightarrow> int (length r) \<le> k"
      unfolding r by (auto simp: py_slice_to_def min_def)
    ultimately show ?thesis by blast
  qed
qed

theorem ranking_order_witness:
  "fst (suggest_words (init [''cap'', ''cat'', ''car''] []) ''cat'' 2 None) =
     Inr [(''cat'', 0, 1), (''cap'', 2, 118 / 125)] \<and>
   2 \<le> length [(''cat'', 0 :: int, 1 :: rat), (''cap'', 2, 118 / 125)] \<and>
   sorted_wrt (\<lambda>x y. fst (snd x) < fst (snd y) \<or>
                         (fst (snd x) = fst (snd y) \<and> snd (snd y) \<le> snd (snd x)))
     [(''cat'', 0 :: int, 1 :: rat), (''cap'', 2, 118 / 125)] \<and>
   int (length [(''cat'', 0 :: int, 1 :: rat), (''cap'', 2, 118 / 125)]) \<le> 2"
proof -
  have a: "fst (suggest_words (init [''cap'', ''cat'', ''car''] []) ''cat'' 2 None) =
     Inr [(''cat'', 0, 1), (''cap'', 2, 118 / 125)]"
    by code_simp
  have b: "2 \<le> length [(''cat'', 0 :: int, 1 :: rat), (''cap'', 2, 118 / 125)]" by simp
  from ranking_order [OF a b] a b show ?thesis by simp
qed

text \<open>
  Claim C8, as stated: with \<open>k \<le> 0\<close> the result is empty and the fallback is not
  invoked. This fails: the test \<open>if not suggestions\<close> comes before the truncation and does
  not look at \<open>k\<close>, so when the bucket scan keeps nothing the fallback runs and its one
  suggestion is returned. On the default dictionary the empty input with \<open>k = 0\<close> gives
  \<open>[("cat", 18, 0.0)]\<close>.
\<close>

theorem zero_max_suggestions_counterexample:
  "(0::int) \<le> 0 \<and>
   fst (bucket_search (init default_dictionary []) (str_lower []) None) = Inr [] \<and>
   fst (suggest_words (init default_dictionary []) [] 0 None) = Inr [(''cat'', 18, 0)]"
proof -
  have "fst (bucket_search (init default_dictionary []) (str_lower []) None) = Inr []"
    by code_simp
  moreover have "fst (suggest_words (init default_dictionary []) [] 0 None) = Inr [(''cat'', 18, 0)]"
    by code_simp
  ultimately show ?thesis by simp
qed

text \<open>
  Claim C8, amended: when no learned correction applies and the bucket scan keeps at
  least one candidate, a call with \<open>k = 0\<close> (or with a negative \<open>k\<close> whose magnitude is
  at least the number of kept candidates) returns the empty list, and the fallback is not
  invoked; when the bucket scan keeps nothing, the fallback runs whatever \<open>k\<close> is, and
  its result is returned.
\<close>

theorem zero_max_suggestions:
  assumes "learned_correction e (str_lower w) = None"
    and "fst (bucket_search e (str_lower w) budget) = Inr sugg"
  shows "(sugg \<noteq> [] \<and> (k = 0 \<or> k \<le> - int (length sugg)) \<longrightarrow>
            fst (suggest_words e w k budget) = Inr []) \<and>
         (sugg = [] \<longrightarrow>
            fst (suggest_words e w k budget) = Inr (fallback e (word_to_braille (str_lower w))))"
proof (intro conjI impI)
  assume a: "sugg \<noteq> [] \<and> (k = 0 \<or> k \<le> - int (length sugg))"
  then have "py_slice_to k (sort_key (\<lambda>x. (fst (snd x), - snd (snd x))) sugg) = []"
    by (auto simp: py_slice_to_def)
  then show "fst (suggest_words e w k budget) = Inr []"
    using assms(1) a suggest_search_Inr [OF assms(2), of k]
    by (simp add: suggest_words_search)
next
  assume "sugg = []"
  then show "fst (suggest_words e w k budget) = Inr (fallback e (word_to_braille (str_lower w)))"
    using assms(1) suggest_search_Inr [OF assms(2), of k]
    by (simp add: suggest_words_search)
qed

theorem zero_max_suggestions_witness:
  "learned_correction (init default_dictionary []) (str_lower ''dg'') = None \<and>
   fst (bucket_search (init default_dictionary []) (str_lower ''dg'') None) = Inr [(''dog'', 6, 4 / 5)] \<and>
   fst (suggest_words (init default_dictionary []) ''dg'' 0 None) = Inr [] \<and>
   learned_correction (init default_dictionary []) (str_lower []) = None \<and>
   fst (bucket_search (init default_dictionary []) (str_lower []) None) = Inr [] \<and>
   fst (suggest_words (init default_dictionary []) [] (- 3) None) =
     Inr (fallback (init default_dictionary []) (word_to_braille (str_lower []))) \<and>
   fallback (init default_dictionary []) (word_to_braille (str_lower [])) = [(''cat'', 18, 0)]"
proof -
  have a: "learned_correction (init default_dictionary []) (str_lower ''dg'') = None"
    by code_simp
  have b: "fst (bucket_search (init default_dictionary []) (str_lower ''dg'') None) =
             Inr [(''dog'', 6, 4 / 5)]"
    by code_simp
  have c: "learned_correction (init default_dictionary []) (str_lower []) = None"
    by code_simp
  have d: "fst (bucket_search (init default_dictionary []) (str_lower []) None) = Inr []"
    by code_simp
  have f: "fallback (init default_dictionary []) (word_to_braille (str_lower [])) = [(''cat'', 18, 0)]"
    by code_simp
  from zero_max_suggestions [OF a b, of 0] zero_max_suggestions [OF c d, of "- 3"] a b c d f
  show ?thesis by simp
qed




text \<open>
  Claim C6, as stated: every returned confidence lies in \<open>[0, 1]\<close>. This fails: the
  bonus of \<open>0.1\<close> for a word found among the learned values is added without a cap, so an
  exact match that is also a learned value is reported with confidence \<open>1.1\<close>.
\<close>

theorem confidence_range_counterexample:
  "fst (suggest_words (remember_choice (init default_dictionary []) ''xyz'' ''cat'') ''cat'' 1 None) =
     Inr [(''cat'', 0, 11 / 10)] \<and>
   \<not> (11 / 10 :: rat) \<le> 1"
proof -
  have "fst (suggest_words (remember_choice (init default_dictionary []) ''xyz'' ''cat'') ''cat'' 1 None) =
     Inr [(''cat'', 0, 11 / 10)]"
    by code_simp
  then show ?thesis by simp
qed

text \<open>
  Claim C6, amended: every returned confidence lies in \<open>[0, 1.1]\<close>, and in \<open>[0, 1]\<close>
  when the suggested word is not among the values of the learned corrections. Floats are
  modelled as exact rationals.
\<close>

theorem confidence_range:
  assumes "fst (suggest_words e w k budget) = Inr r" "(word, distance, confidence) \<in> set r"
  shows "0 \<le> confidence \<and> confidence \<le> 11 / 10 \<and>
         (word \<notin> snd ` set (user_corrections e) \<longrightarrow> confidence \<le> 1)"
proof (cases "learned_correction e (str_lower w)")
  case (Some c)
  with assms(1) have "r = [(c, 0, 1)]" by (simp add: suggest_words_learned)
  with assms(2) show ?thesis by simp
next
  case None
  with assms(1) have "fst (suggest_search e (str_lower w) k budget) = Inr r"
    by (simp add: suggest_words_search)
  from suggest_search_cases [OF this] obtain sugg where
    b: "fst (bucket_search e (str_lower w) budget) = Inr sugg" and
    s: "if sugg = [] then r = fallback e (word_to_braille (str_lower w))
        else r = py_slice_to k (sort_key (\<lambda>x. (fst (snd x), - snd (snd x))) sugg)"
    by blast
  show ?thesis
  proof (cases "sugg = []")
    case True
    with s assms(2) fallback_conf [of "(word, distance, confidence)" e "word_to_braille (str_lower w)"]
    show ?thesis by simp
  next
    case False
    with s assms(2) set_py_slice_to [of k "sort_key (\<lambda>x. (fst (snd x), - snd (snd x))) sugg"]
    have "(word, distance, confidence) \<in> set sugg" by auto
    from bucket_search_kept [OF b this] kept_ok_bounds [of e _ _ "(word, distance, confidence)"]
    show ?thesis by auto
  qed
qed

theorem confidence_range_witness:
  "fst (suggest_words (init [''cat'', ''cap''] [(''cak'', ''cap'')]) ''cat'' 2 None) =
     Inr [(''cat'', 0, 1), (''cap'', 2, 1044 / 1000)] \<and>
   (''cap'', 2, 1044 / 1000) \<in> set [(''cat'', 0 :: int, 1 :: rat), (''cap'', 2, 1044 / 1000)] \<and>
   (0 :: rat) \<le> 1044 / 1000 \<and> (1044 / 1000 :: rat) \<le> 11 / 10"
proof -
  have a: "fst (suggest_words (init [''cat'', ''cap''] [(''cak'', ''cap'')]) ''cat'' 2 None) =
     Inr [(''cat'', 0, 1), (''cap'', 2, 1044 / 1000)]"
    by code_simp
  have b: "(''cap'', 2, 1044 / 1000) \<in> set [(''cat'', 0 :: int, 1 :: rat), (''cap'', 2, 1044 / 1000)]"
    by simp
  from confidence_range [OF a b] a b show ?thesis by simp
qed

text \<open>
  Claim C5, as stated: on a non-empty dictionary \<open>suggest_words\<close> returns at least one
  suggestion for every input. This fails for \<open>k = 0\<close>: when the bucket scan keeps
  candidates the fallback is skipped and the truncation \<open>suggestions[:0]\<close> leaves
  nothing.
\<close>

theorem nonempty_result_counterexample:
  "default_dictionary \<noteq> [] \<and>
   fst (suggest_words (init default_dictionary []) ''cat'' 0 None) = Inr []"
proof -
  have "fst (suggest_words (init default_dictionary []) ''cat'' 0 None) = Inr []"
    by code_simp
  then show ?thesis by (simp add: default_dictionary_def)
qed

text \<open>
  Claim C5, amended: for every non-empty dictionary that holds no empty word (the
  loader drops blank lines), every input word, the empty string included, every budget
  and every \<open>k \<ge> 1\<close>, \<open>suggest_words\<close> returns, and returns at least one suggestion;
  when no learned correction applies and the bucket scan keeps nothing, the result is
  exactly one suggestion, a dictionary word whose unbounded distance to the input is the
  smallest, with confidence \<open>0.0\<close>.
\<close>

theorem nonempty_result:
  assumes "dict \<noteq> []" "[] \<notin> set dict" "1 \<le> k"
  shows "\<exists>r. fst (suggest_words (init dict uc) w k budget) = Inr r \<and> r \<noteq> [] \<and>
           (learned_correction (init dict uc) (str_lower w) = None \<and>
            fst (bucket_search (init dict uc) (str_lower w) budget) = Inr [] \<longrightarrow>
              (\<exists>x\<in>set dict.
                 r = [(x, int (edit_distance (word_to_braille w) (word_to_braille x)), 0)] \<and>
                 (\<forall>y\<in>set dict. edit_distance (word_to_braille w) (word_to_braille x)
                                \<le> edit_distance (word_to_braille w) (word_to_braille y))))"
proof (cases "learned_correction (init dict uc) (str_lower w)")
  case (Some c)
  then show ?thesis by (simp add: suggest_words_learned)
next
  case None
  let ?e = "init dict uc"
  let ?key = "\<lambda>x :: suggestion. (fst (snd x), - snd (snd x))"
  obtain sugg where b: "fst (bucket_search ?e (str_lower w) budget) = Inr sugg"
    using bucket_search_total [of "str_lower w" dict uc budget] assms(2) by blast
  have res: "fst (suggest_words ?e w k budget) =
           Inr (if sugg = [] then fallback ?e (word_to_braille w)
                else py_slice_to k (sort_key ?key sugg))"
    using suggest_search_Inr [OF b, of k] None
    by (simp add: suggest_words_search word_to_braille_lower)
  show ?thesis
  proof (cases "sugg = []")
    case True
    from fallback_init [OF assms(1), of uc "word_to_braille w"]
    show ?thesis using res True b by (auto simp: edit_distance_rec)
  next
    case False
    then have "sort_key ?key sugg \<noteq> []" by (simp add: sort_key_Nil_iff)
    from py_slice_to_Cons [OF assms(3) this]
    have "py_slice_to k (sort_key ?key sugg) \<noteq> []" by auto
    with res False b show ?thesis by simp
  qed
qed

theorem nonempty_result_witness:
  "default_dictionary \<noteq> [] \<and> [] \<notin> set default_dictionary \<and> (1::int) \<le> 1 \<and>
   (\<exists>r. fst (suggest_words (init default_dictionary []) [] 1 None) = Inr r \<and> r \<noteq> [])"
proof -
  have a: "default_dictionary \<noteq> []" by (simp add: default_dictionary_def)
  have b: "[] \<notin> set default_dictionary" by (simp add: default_dictionary_def)
  have c: "(1::int) \<le> 1" by simp
  from nonempty_result [OF a b c, of "[]" "[]" None] a b c show ?thesis by blast
qed

text \<open>
  Claim C1, as stated: a dictionary word \<open>w\<close> that no learned correction overrides is
  ranked first with distance 0 and confidence \<open>1.0\<close>. This fails when \<open>w\<close> is itself
  among the values of the learned corrections: the bonus of \<open>0.1\<close> applies to it, and
  the confidence reported is \<open>1.1\<close>.
\<close>

theorem exact_match_counterexample:
  "''cat'' \<in> set default_dictionary \<and>
   learned_correction (init default_dictionary [(''xyz'', ''cat'')]) (str_lower ''cat'') = None \<and>
   fst (suggest_words (init default_dictionary [(''xyz'', ''cat'')]) ''cat'' 1 None) =
     Inr [(''cat'', 0, 11 / 10)] \<and>
   (11 / 10 :: rat) \<noteq> 1"
proof -
  have "learned_correction (init default_dictionary [(''xyz'', ''cat'')]) (str_lower ''cat'') = None"
    by code_simp
  moreover have "fst (suggest_words (init default_dictionary [(''xyz'', ''cat'')]) ''cat'' 1 None) =
     Inr [(''cat'', 0, 11 / 10)]"
    by code_simp
  ultimately show ?thesis by (simp add: default_dictionary_def)
qed

text \<open>
  Claim C1, amended: for every non-empty word \<open>w\<close> of the dictionary that no learned
  correction overrides and whose code no other dictionary word shares, \<open>suggest_words(w, k)\<close>
  with \<open>k \<ge> 1\<close> and no budget ranks \<open>w\<close> first with distance 0, and with confidence
  \<open>1.0\<close>, or \<open>1.1\<close> when \<open>w\<close> is among the values of the learned corrections.
\<close>

theorem exact_match_first:
  assumes "w \<in> set dict" "w \<noteq> []"
    and "learned_correction (init dict uc) (str_lower w) = None"
    and "1 \<le> k"
    and "\<forall>v\<in>set dict. word_to_braille v = word_to_braille w \<longrightarrow> v = w"
  shows "\<exists>rest. fst (suggest_words (init dict uc) w k None) =
                  Inr ((w, 0, if w \<in> snd ` set uc then 11 / 10 else 1) # rest)"
proof -
  let ?e = "init dict uc"
  let ?w' = "str_lower w"
  let ?md = "adaptive_max_distance ?w' None"
  let ?x0 = "(w, 0 :: int, if w \<in> snd ` set uc then 11 / 10 else 1 :: rat)"
  let ?key = "\<lambda>x :: suggestion. (fst (snd x), - snd (snd x))"
  have ib: "word_to_braille ?w' = word_to_braille w" by (rule word_to_braille_lower)
  have "?w' \<noteq> []" using assms(2) by (simp add: str_lower_def)
  then obtain sugg where b: "fst (bucket_search ?e ?w' None) = Inr sugg"
    using bucket_search_total [of ?w' dict uc None] by blast
  then have sb: "fst (search_buckets ?e (word_to_braille w) ?md
                       (search_lengths (int (length (word_to_braille w))) ?md) []) = Inr sugg"
    by (simp add: bucket_search_def Let_def ib)
  have md: "0 \<le> ?md" by (rule adaptive_None_nonneg)
  have x0: "?x0 \<in> set sugg"
    using exact_candidate_kept [OF assms(1) md refl sb] .
  have kept: "\<forall>x\<in>set sugg. kept_ok ?e (word_to_braille w) ?md x"
    using bucket_search_kept [OF b] by (simp add: ib)
  have nonneg: "\<forall>x\<in>set sugg. 0 \<le> fst (snd x)"
    using kept kept_ok_bounds(1) by blast
  have uniq: "\<forall>x\<in>set sugg. fst (snd x) = 0 \<longrightarrow> x = ?x0"
    using kept zero_distance_kept [OF _ _ assms(5)] by blast
  have hd: "hd (sort_key ?key sugg) = ?x0"
    using hd_ranking_unique [OF x0 _ nonneg uniq] by simp
  have ne: "sugg \<noteq> []" using x0 by auto
  then have "sort_key ?key sugg \<noteq> []" by (simp add: sort_key_Nil_iff)
  from py_slice_to_Cons [OF assms(4) this] hd
  obtain rest where "py_slice_to k (sort_key ?key sugg) = ?x0 # rest" by auto
  with suggest_search_Inr [OF b, of k] ne assms(3) show ?thesis
    by (simp add: suggest_words_search)
qed

theorem exact_match_first_witness:
  "''cat'' \<in> set [''cap'', ''cat''] \<and> ''cat'' \<noteq> [] \<and>
   learned_correction (init [''cap'', ''cat''] [(''cak'', ''cap'')]) (str_lower ''cat'') = None \<and>
   (1::int) \<le> 1 \<and>
   word_to_braille ''cap'' \<noteq> word_to_braille ''cat'' \<and>
   (\<exists>rest. fst (suggest_words (init [''cap'', ''cat''] [(''cak'', ''cap'')]) ''cat'' 1 None) =
             Inr ((''cat'', 0, 1) # rest))"
proof -
  have a: "''cat'' \<in> set [''cap'', ''cat'']" by simp
  have b: "''cat'' \<noteq> []" by simp
  have c: "learned_correction (init [''cap'', ''cat''] [(''cak'', ''cap'')]) (str_lower ''cat'') = None"
    by code_simp
  have d: "(1::int) \<le> 1" by simp
  have n: "word_to_braille ''cap'' \<noteq> word_to_braille ''cat''" by code_simp
  then have e: "\<forall>v\<in>set [''cap'', ''cat'']. word_to_braille v = word_to_braille ''cat'' \<longrightarrow> v = ''cat''"
    by simp
  from exact_match_first [OF a b c d e] a b c d n show ?thesis by simp
qed

end
